theory Spec2Isabelle
  imports Main
begin

section \<open>JavaScript values and string primitives used by the dispatcher\<close>

text \<open>
  The dispatcher of the ScanPower MCP server (the \<open>CallToolRequestSchema\<close> handler of
  \<open>ScanPowerMCPServer.setupHandlers\<close>) works on JSON values: the caller's argument
  object, the parameter definitions of the OpenAPI document and the bodies of upstream
  responses. A JSON value is a \<open>jval\<close>; JavaScript's \<open>undefined\<close> (a key that is not
  there) is \<open>None\<close> of \<open>jval option\<close>, while \<open>null\<close> is the value \<open>JNull\<close>. Objects are
  association lists of their own properties. Strings are byte strings (UTF-8).

  A number is given by the two things the dispatcher can see of it: whether it is zero
  (the only falsy number JSON can denote) and the text \<open>String\<close> prints for it, which is
  the language's \<open>Number::toString\<close> (the digits for an integer of small magnitude,
  \<open>1e+21\<close> for a large one, and so on).

  Reading a property of a plain object also finds the members of \<open>Object.prototype\<close>;
  \<open>JNative k\<close> is the built-in found under the name \<open>k\<close>.
\<close>

datatype jval =
    JNull
  | JBool bool
  | JNum bool string
  | JStr string
  | JArr "jval list"
  | JObj "(string \<times> jval) list"
  | JNative string

type_synonym jobject = "(string \<times> jval) list"

text \<open>Truthiness (\<open>if (x)\<close>, \<open>!x\<close>, \<open>a || b\<close>) and nullishness (\<open>a ?? b\<close>).\<close>

fun truthy :: "jval option \<Rightarrow> bool" where
  "truthy None = False"
| "truthy (Some JNull) = False"
| "truthy (Some (JBool b)) = b"
| "truthy (Some (JNum zero txt)) = (\<not> zero)"
| "truthy (Some (JStr s)) = (s \<noteq> [])"
| "truthy (Some (JArr xs)) = True"
| "truthy (Some (JObj kvs)) = True"
| "truthy (Some (JNative k)) = True"

definition js_or :: "jval option \<Rightarrow> jval option \<Rightarrow> jval option" where
  "js_or a b = (if truthy a then a else b)"

definition nullish :: "jval option \<Rightarrow> bool" where
  "nullish a = (a = None \<or> a = Some JNull)"

definition coalesce :: "jval option \<Rightarrow> jval option \<Rightarrow> jval option" where
  "coalesce a b = (if nullish a then b else a)"

text \<open>
  Property read \<open>obj[k]\<close> on a plain object: an own property, or else the member of
  \<open>Object.prototype\<close> of that name.
\<close>

definition object_prototype_names :: "string list" where
  "object_prototype_names =
     [''constructor'', ''__defineGetter__'', ''__defineSetter__'', ''hasOwnProperty'',
      ''__lookupGetter__'', ''__lookupSetter__'', ''isPrototypeOf'', ''propertyIsEnumerable'',
      ''toString'', ''valueOf'', ''__proto__'', ''toLocaleString'']"

definition js_get :: "jobject \<Rightarrow> string \<Rightarrow> jval option" where
  "js_get obj k =
     (case map_of obj k of
        Some v \<Rightarrow> Some v
      | None \<Rightarrow> if k \<in> set object_prototype_names then Some (JNative k) else None)"

text \<open>
  Property read \<open>x.k\<close> on a value that is not null. Values other than objects have none
  of the properties the code reads from them (\<open>type\<close>, \<open>scheme\<close>, \<open>token\<close>,
  \<open>access_token\<close>, \<open>items\<close>, \<open>id\<close>, \<open>name\<close>).
\<close>

fun get_field :: "jval \<Rightarrow> string \<Rightarrow> jval option" where
  "get_field (JObj kvs) k = js_get kvs k"
| "get_field v k = None"

text \<open>
  \<open>Map.set\<close>, and property write on an object: an existing key keeps its place, a new
  one is appended. Assigning to \<open>__proto__\<close> creates no own property.
\<close>

fun obj_set :: "(string \<times> 'v) list \<Rightarrow> string \<Rightarrow> 'v \<Rightarrow> (string \<times> 'v) list" where
  "obj_set [] k v = [(k, v)]"
| "obj_set ((k', v') # kvs) k v =
     (if k' = k then (k, v) # kvs else (k', v') # obj_set kvs k v)"

definition set_prop :: "(string \<times> 'v) list \<Rightarrow> string \<Rightarrow> 'v \<Rightarrow> (string \<times> 'v) list" where
  "set_prop kvs k v = (if k = ''__proto__'' then kvs else obj_set kvs k v)"

definition obj_delete :: "(string \<times> 'v) list \<Rightarrow> string \<Rightarrow> (string \<times> 'v) list" where
  "obj_delete kvs k = filter (\<lambda>kv. fst kv \<noteq> k) kvs"

subsection \<open>\<open>String(v)\<close>\<close>

text \<open>
  \<open>String(v)\<close>, and \<open>v\<close> in a template literal. The result is \<open>None\<close> when the conversion
  throws a TypeError: an object with an own property \<open>toString\<close> (which, coming from JSON,
  is not callable) has no primitive value, and neither has an array with such an element.
  An array prints its elements joined by commas, \<open>null\<close> as the empty text; a built-in
  function prints its source text.
\<close>

definition type_error :: string where
  "type_error = ''Cannot convert object to primitive value''"

fun join_with :: "string \<Rightarrow> string list \<Rightarrow> string" where
  "join_with sep [] = []"
| "join_with sep [x] = x"
| "join_with sep (x # y # ys) = x @ sep @ join_with sep (y # ys)"

definition native_text :: "string \<Rightarrow> string" where
  "native_text k =
     (if k = ''__proto__'' then ''[object Object]''
      else ''function '' @ (if k = ''constructor'' then ''Object'' else k) @ ''() { [native code] }'')"

fun to_String :: "jval \<Rightarrow> string option" where
  "to_String JNull = Some ''null''"
| "to_String (JBool b) = Some (if b then ''true'' else ''false'')"
| "to_String (JNum zero txt) = Some txt"
| "to_String (JStr s) = Some s"
| "to_String (JArr xs) =
     map_option (join_with '','') (those (map (\<lambda>x. if x = JNull then Some [] else to_String x) xs))"
| "to_String (JObj kvs) = (if ''toString'' \<in> fst ` set kvs then None else Some ''[object Object]'')"
| "to_String (JNative k) = Some (native_text k)"

subsection \<open>\<open>replace(/[-.]/g, '_')\<close>, \<open>toLowerCase\<close>, \<open>includes\<close>, \<open>endsWith\<close>, \<open>trim\<close>\<close>

definition sanitize :: "string \<Rightarrow> string" where
  "sanitize p = map (\<lambda>c. if c = CHR ''-'' \<or> c = CHR ''.'' then CHR ''_'' else c) p"

definition lower_char :: "char \<Rightarrow> char" where
  "lower_char c = (let n = (of_char c :: nat) in if 65 \<le> n \<and> n \<le> 90 then char_of (n + 32) else c)"

definition toLowerCase :: "string \<Rightarrow> string" where
  "toLowerCase s = map lower_char s"

definition toUpperCase :: "string \<Rightarrow> string" where
  "toUpperCase s =
     map (\<lambda>c. let n = (of_char c :: nat) in if 97 \<le> n \<and> n \<le> 122 then char_of (n - 32) else c) s"

definition startsWith :: "string \<Rightarrow> string \<Rightarrow> bool" where
  "startsWith s pat = (take (length pat) s = pat)"

definition endsWith :: "string \<Rightarrow> string \<Rightarrow> bool" where
  "endsWith s pat = (length pat \<le> length s \<and> drop (length s - length pat) s = pat)"

fun str_includes :: "string \<Rightarrow> string \<Rightarrow> bool" where
  "str_includes [] pat = (pat = [])"
| "str_includes (c # cs) pat = (startsWith (c # cs) pat \<or> str_includes cs pat)"

text \<open>
  \<open>s.replace(pat, rep)\<close> with a string pattern replaces the first occurrence only. The
  replacement text is taken literally here; JavaScript gives \<open>$\<close> in the replacement a
  special meaning, and \<open>encodeURIComponent_no_special\<close> below shows that the only
  replacement the dispatcher uses never contains one.
\<close>

fun replace_first :: "string \<Rightarrow> string \<Rightarrow> string \<Rightarrow> string" where
  "replace_first pat rep [] = (if pat = [] then rep else [])"
| "replace_first pat rep (c # cs) =
     (if startsWith (c # cs) pat then rep @ drop (length pat) (c # cs)
      else c # replace_first pat rep cs)"

text \<open>
  White space as \<open>String.prototype.trim\<close> sees it, in UTF-8: the ASCII controls TAB, LF,
  VT, FF, CR and the space, and the encodings of U+00A0, U+1680, U+2000 to U+200A,
  U+2028, U+2029, U+202F, U+205F, U+3000 and U+FEFF.
\<close>

definition ws_codes :: "nat list list" where
  "ws_codes =
     [[9], [10], [11], [12], [13], [32], [194, 160], [225, 154, 128]]
     @ map (\<lambda>c. [226, 128, c]) [128 ..< 139]
     @ [[226, 128, 168], [226, 128, 169], [226, 128, 175], [226, 129, 159],
        [227, 128, 128], [239, 187, 191]]"

definition ws_seqs :: "string list" where
  "ws_seqs = map (map char_of) ws_codes"

text \<open>The length of the white-space character a string starts (ends) with, 0 when none.\<close>

definition ws_len :: "string \<Rightarrow> nat" where
  "ws_len s = (case find (startsWith s) ws_seqs of None \<Rightarrow> 0 | Some w \<Rightarrow> length w)"

definition ws_len_end :: "string \<Rightarrow> nat" where
  "ws_len_end s = (case find (endsWith s) ws_seqs of None \<Rightarrow> 0 | Some w \<Rightarrow> length w)"

lemma startsWith_length: "startsWith s w \<Longrightarrow> length w \<le> length s"
proof -
  assume "startsWith s w"
  then have "length w = length (take (length w) s)" by (simp add: startsWith_def)
  then show ?thesis by simp
qed

lemma ws_len_le: "ws_len s \<le> length s"
  by (auto simp: ws_len_def find_Some_iff split: option.splits dest: startsWith_length)

lemma ws_len_end_le: "ws_len_end s \<le> length s"
  by (auto simp: ws_len_end_def endsWith_def find_Some_iff split: option.splits)

function trimStart :: "string \<Rightarrow> string" where
  "trimStart s = (if ws_len s = 0 then s else trimStart (drop (ws_len s) s))"
  by pat_completeness auto
termination
proof (relation "measure length")
  show "wf (measure length)" by simp
next
  fix s :: string
  assume "ws_len s \<noteq> 0"
  moreover have "ws_len s \<le> length s" by (rule ws_len_le)
  ultimately show "(drop (ws_len s) s, s) \<in> measure length" by simp
qed

declare trimStart.simps [simp del]

function trimEnd :: "string \<Rightarrow> string" where
  "trimEnd s = (if ws_len_end s = 0 then s else trimEnd (take (length s - ws_len_end s) s))"
  by pat_completeness auto
termination
proof (relation "measure length")
  show "wf (measure length)" by simp
next
  fix s :: string
  assume "ws_len_end s \<noteq> 0"
  moreover have "ws_len_end s \<le> length s" by (rule ws_len_end_le)
  ultimately show "(take (length s - ws_len_end s) s, s) \<in> measure length" by simp
qed

declare trimEnd.simps [simp del]

definition trim :: "string \<Rightarrow> string" where
  "trim s = trimEnd (trimStart s)"

subsection \<open>\<open>encodeURIComponent\<close>\<close>

text \<open>
  Every byte is percent-encoded except the unreserved ones:
  letters, digits and \<open>- _ . ! ~ * ' ( )\<close>.
\<close>

definition uri_unreserved :: "char \<Rightarrow> bool" where
  "uri_unreserved c =
     (let n = (of_char c :: nat)
      in (65 \<le> n \<and> n \<le> 90) \<or> (97 \<le> n \<and> n \<le> 122) \<or> (48 \<le> n \<and> n \<le> 57)
         \<or> n = 45 \<or> n = 95 \<or> n = 46 \<or> n = 33 \<or> n = 126 \<or> n = 42 \<or> n = 39 \<or> n = 40 \<or> n = 41)"

definition hex_digit :: "nat \<Rightarrow> char" where
  "hex_digit d = (if d < 10 then char_of (48 + d) else char_of (55 + d))"

definition pct_encode :: "char \<Rightarrow> string" where
  "pct_encode c =
     (let n = (of_char c :: nat) in [CHR ''%'', hex_digit (n div 16), hex_digit (n mod 16)])"

definition encodeURIComponent :: "string \<Rightarrow> string" where
  "encodeURIComponent s = concat (map (\<lambda>c. if uri_unreserved c then [c] else pct_encode c) s)"

section \<open>The OpenAPI document, operation descriptors and the session\<close>

text \<open>
  The parsed document, as far as the compiler and the dispatcher read it. A parameter is
  the parameter object of the document; a reference parameter (\<open>$ref\<close>) is resolved by
  walking the pointer through the document, which \<open>oa_refs\<close> tabulates. A security
  requirement is given by the list of its scheme names, in \<open>Object.keys\<close> order.
\<close>

record parameter =
  pm_name :: string
  pm_in :: string
  pm_required :: "jval option"
  pm_description :: "jval option"
  pm_schema :: "jval option"

datatype param_entry = Inline parameter | Reference string

record operation_decl =
  od_operationId :: "string option"
  od_summary :: "string option"
  od_description :: "string option"
  od_parameters :: "param_entry list"
  od_content :: "(string \<times> jval option) list option"
  od_security :: "string list list option"

record path_item =
  pi_parameters :: "param_entry list"
  pi_operations :: "(string \<times> operation_decl) list"

record openapi =
  oa_paths :: "(string \<times> path_item) list"
  oa_security :: "string list list option"
  oa_securitySchemes :: "jobject option"
  oa_refs :: "(string \<times> parameter) list"

text \<open>The entries of \<open>operationMap\<close> and of \<open>generatedTools\<close>.\<close>

record operation =
  op_method :: string
  op_path :: string
  pathHasTrailingSlash :: bool
  pathParams :: "string list"
  queryParams :: "string list"
  headerParams :: "string list"
  paramDefs_path :: "parameter list"
  paramDefs_query :: "parameter list"
  paramDefs_header :: "parameter list"
  security :: "string list list"
  bodyRequired :: bool
  bodySchema :: "jval option"

record tool =
  t_name :: string
  t_description :: string
  t_properties :: jobject
  t_required :: "string list option"

text \<open>
  What goes to the upstream: the configuration handed to the HTTP client for a dispatched
  call, the token exchange of \<open>authenticate\<close> (with the \<open>X-Proxy\<close> value it carries) and
  the vendor-token fetch of \<open>getAmazonAccessToken\<close> (with its marketplace id).
\<close>

record request =
  rq_method :: string
  rq_url :: string
  rq_params :: "jobject option"
  rq_data :: "jval option"
  rq_headers :: jobject
  rq_auth :: "(string \<times> string) option"

datatype event =
    AuthExchange "string option"
  | VendorTokenFetch string
  | ApiRequest request

text \<open>
  The upstream is the environment: it answers each request with a failure (network error
  or a status outside 2xx, with the error's text) or with a response body, and may
  choose its answer from everything sent so far.
\<close>

datatype http_reply = HttpError string | HttpOk jval

record upstream =
  token_endpoint :: "event list \<Rightarrow> http_reply"
  vendor_endpoint :: "event list \<Rightarrow> http_reply"
  api_endpoint :: "event list \<Rightarrow> request \<Rightarrow> http_reply"

text \<open>
  The fields of \<open>ScanPowerMCPServer\<close> and of its \<open>ScanPowerAPIClient\<close>, with the log of
  what has been sent (\<open>wire\<close>).
\<close>

record server =
  isReady :: bool
  openApi :: "openapi option"
  operationMap :: "(string \<times> operation) list"
  generatedTools :: "tool list"
  username :: string
  password :: string
  proxyUserId :: "string option"
  marketplaceId :: string
  apiToken :: "jval option"
  amazonAccessToken :: "jval option"
  wire :: "event list"

section \<open>The upstream client\<close>

text \<open>\<open>response.data.k\<close>: reading a property of \<open>null\<close> throws a TypeError.\<close>

fun read_prop :: "jval \<Rightarrow> string \<Rightarrow> string + jval option" where
  "read_prop JNull k = Inl ''TypeError: Cannot read properties of null''"
| "read_prop v k = Inr (get_field v k)"

text \<open>
  \<open>authenticate\<close> and \<open>getAmazonAccessToken\<close> return the thrown message on the left; the
  session comes back in both cases, since the request has been sent.
\<close>

definition authenticate :: "upstream \<Rightarrow> server \<Rightarrow> (string + unit) \<times> server" where
  "authenticate up s =
     (let xproxy = (case proxyUserId s of None \<Rightarrow> None
                    | Some u \<Rightarrow> if u = [] then None else Some u);
          s1 = s\<lparr>wire := wire s @ [AuthExchange xproxy]\<rparr>
      in case token_endpoint up (wire s) of
           HttpError e \<Rightarrow> (Inl (''Authentication failed: '' @ e), s1)
         | HttpOk d \<Rightarrow>
             (case read_prop d ''token'' of
                Inl e \<Rightarrow> (Inl (''Authentication failed: '' @ e), s1)
              | Inr t \<Rightarrow> (Inr (), s1\<lparr>apiToken := t\<rparr>)))"

definition getAmazonAccessToken :: "upstream \<Rightarrow> server \<Rightarrow> (string + jval option) \<times> server" where
  "getAmazonAccessToken up s =
     (if truthy (amazonAccessToken s) then (Inr (amazonAccessToken s), s)
      else
        (let s1 = s\<lparr>wire := wire s @ [VendorTokenFetch (marketplaceId s)]\<rparr>
         in case vendor_endpoint up (wire s) of
              HttpError e \<Rightarrow> (Inl (''Failed to get Amazon access token: '' @ e), s1)
            | HttpOk d \<Rightarrow>
                (case read_prop d ''access_token'' of
                   Inl e \<Rightarrow> (Inl (''Failed to get Amazon access token: '' @ e), s1)
                 | Inr t \<Rightarrow> (Inr t, s1\<lparr>amazonAccessToken := t\<rparr>))))"

definition setProxyUserId :: "string option \<Rightarrow> server \<Rightarrow> server" where
  "setProxyUserId u s = s\<lparr>proxyUserId := u\<rparr>"

section \<open>The tool dispatcher\<close>

text \<open>
  The result of a call: the not-ready reply, the confirmation of a proxy-user change, the
  elicitation reply (\<open>content: [], requires: [...], isError: false\<close>), the rendering of
  the upstream response, or the error reply of the \<open>catch\<close> block (its text is
  \<open>Error: \<close> followed by the message and the serialised request). A handler that throws
  instead of returning has \<open>Escaped\<close>. \<open>ToolSuccess\<close> stands for both renderings of a
  response, the JSON text and the numbered list of \<open>getProxyUsers\<close>.
\<close>

record missing_input =
  mi_name :: string
  mi_description :: "jval option"
  mi_in :: string
  mi_schema :: "jval option"

record required_input =
  ri_name :: string
  ri_description :: "jval option"
  ri_schema :: "jval option"

datatype tool_result =
    NotReady
  | ProxyUserSet string
  | Elicitation "required_input list"
  | ToolSuccess jval
  | ToolError string

datatype outcome = Returned tool_result | Escaped string

fun isError :: "tool_result \<Rightarrow> bool" where
  "isError NotReady = True"
| "isError (ToolError m) = True"
| "isError r = False"

text \<open>\<open>argsOrEmpty[p] ?? argsOrEmpty[p.replace(/[-.]/g, '_')]\<close>\<close>

definition lookup_arg :: "jobject \<Rightarrow> string \<Rightarrow> jval option" where
  "lookup_arg args p = coalesce (js_get args p) (js_get args (sanitize p))"

definition find_def :: "parameter list \<Rightarrow> string \<Rightarrow> parameter option" where
  "find_def defs p = find (\<lambda>pd. pm_name pd = p) defs"

definition missing_of :: "parameter list \<Rightarrow> string \<Rightarrow> string \<Rightarrow> missing_input" where
  "missing_of defs p loc =
     \<lparr>mi_name = sanitize p,
      mi_description = (case find_def defs p of None \<Rightarrow> None | Some d \<Rightarrow> pm_description d),
      mi_in = loc,
      mi_schema = (case find_def defs p of None \<Rightarrow> None | Some d \<Rightarrow> pm_schema d)\<rparr>"

definition def_required :: "parameter list \<Rightarrow> string \<Rightarrow> bool" where
  "def_required defs p = (case find_def defs p of None \<Rightarrow> False | Some d \<Rightarrow> truthy (pm_required d))"

text \<open>
  The loop over \<open>op.pathParams\<close>: substitute, or collect for elicitation. The result is the
  message of the error \<open>String(v)\<close> throws, if it does, with \<open>urlPath\<close> and the list of
  missing inputs as they are when the loop ends.
\<close>

fun build_url ::
  "jobject \<Rightarrow> parameter list \<Rightarrow> string list \<Rightarrow> string \<Rightarrow> missing_input list
     \<Rightarrow> string option \<times> string \<times> missing_input list" where
  "build_url args defs [] urlPath missing = (None, urlPath, missing)"
| "build_url args defs (p # ps) urlPath missing =
     (case lookup_arg args p of
        None \<Rightarrow> build_url args defs ps urlPath (missing @ [missing_of defs p ''path''])
      | Some v \<Rightarrow>
          (case to_String v of
             None \<Rightarrow> (Some type_error, urlPath, missing)
           | Some txt \<Rightarrow>
               build_url args defs ps
                 (replace_first (''{'' @ p @ ''}'') (encodeURIComponent txt) urlPath)
                 missing))"

definition restore_slash :: "operation \<Rightarrow> string \<Rightarrow> string" where
  "restore_slash op urlPath =
     (if pathHasTrailingSlash op \<and> \<not> endsWith urlPath ''/'' then urlPath @ ''/'' else urlPath)"

text \<open>The loop over \<open>op.queryParams\<close>.\<close>

fun build_query ::
  "jobject \<Rightarrow> parameter list \<Rightarrow> string list \<Rightarrow> jobject \<Rightarrow> missing_input list
     \<Rightarrow> jobject \<times> missing_input list" where
  "build_query args defs [] qp missing = (qp, missing)"
| "build_query args defs (q # qs) qp missing =
     (case lookup_arg args q of
        Some val \<Rightarrow> build_query args defs qs (set_prop qp q val) missing
      | None \<Rightarrow>
          build_query args defs qs qp
            (if def_required defs q then missing @ [missing_of defs q ''query''] else missing))"

text \<open>
  The loop over \<open>op.headerParams\<close>. For \<open>x-access-token\<close> without a truthy argument the
  vendor token is fetched unless one is cached, a failure of the fetch is swallowed, and
  the value is whatever the client's \<open>amazonAccessToken\<close> field then holds.
\<close>

definition header_value :: "upstream \<Rightarrow> jobject \<Rightarrow> string \<Rightarrow> server \<Rightarrow> jval option \<times> server" where
  "header_value up args h s =
     (let val = lookup_arg args h
      in if h = ''x-access-token'' \<and> \<not> truthy val then
           (let s1 = (if \<not> truthy (amazonAccessToken s) then snd (getAmazonAccessToken up s) else s)
            in (amazonAccessToken s1, s1))
         else (val, s))"

fun build_headers ::
  "upstream \<Rightarrow> jobject \<Rightarrow> parameter list \<Rightarrow> string list \<Rightarrow> jobject \<Rightarrow> missing_input list
     \<Rightarrow> server \<Rightarrow> jobject \<times> missing_input list \<times> server" where
  "build_headers up args defs [] hs missing s = (hs, missing, s)"
| "build_headers up args defs (h # rest) hs missing s =
     (case header_value up args h s of
        (Some val, s1) \<Rightarrow> build_headers up args defs rest (set_prop hs h val) missing s1
      | (None, s1) \<Rightarrow>
          build_headers up args defs rest hs
            (if def_required defs h then missing @ [missing_of defs h ''header''] else missing) s1)"

definition body_missing :: "operation \<Rightarrow> missing_input" where
  "body_missing op =
     \<lparr>mi_name = ''body'', mi_description = Some (JStr ''Request body''), mi_in = ''body'',
      mi_schema = js_or (bodySchema op) (Some (JObj [(''type'', JStr ''object'')]))\<rparr>"

definition to_required :: "missing_input \<Rightarrow> required_input" where
  "to_required mi =
     \<lparr>ri_name = mi_name mi, ri_description = mi_description mi, ri_schema = mi_schema mi\<rparr>"

subsection \<open>Per-operation security\<close>

text \<open>\<open>String(x || '')\<close>; \<open>None\<close> when the conversion throws.\<close>

definition string_or_empty :: "jval option \<Rightarrow> string option" where
  "string_or_empty x =
     (case x of None \<Rightarrow> Some [] | Some v \<Rightarrow> if truthy (Some v) then to_String v else Some [])"

text \<open>
  Whether a scheme object is an HTTP scheme of the given kind: \<open>scheme.type\<close> is printed
  and compared first, \<open>scheme.scheme\<close> only for the types \<open>http\<close> and \<open>https\<close>. The result is
  \<open>None\<close> when printing throws.
\<close>

definition is_http_scheme :: "jval \<Rightarrow> string \<Rightarrow> bool option" where
  "is_http_scheme scheme kind =
     (case string_or_empty (get_field scheme ''type'') of
        None \<Rightarrow> None
      | Some t \<Rightarrow>
          if toLowerCase t = ''http'' \<or> toLowerCase t = ''https'' then
            (case string_or_empty (get_field scheme ''scheme'') of
               None \<Rightarrow> None
             | Some sc \<Rightarrow> Some (toLowerCase sc = kind))
          else Some False)"

text \<open>
  \<open>this.openApi?.components?.securitySchemes?.[schemeName]\<close>: the registry of the document,
  when there is one, read like any object.
\<close>

definition registry :: "server \<Rightarrow> jobject option" where
  "registry s = (case openApi s of None \<Rightarrow> None | Some doc \<Rightarrow> oa_securitySchemes doc)"

definition registered :: "jobject option \<Rightarrow> string \<Rightarrow> jval option" where
  "registered reg schemeName = (case reg of None \<Rightarrow> None | Some r \<Rightarrow> js_get r schemeName)"

text \<open>
  The first loop over the scheme names of the requirement: a name without a (truthy)
  entry in the registry is skipped; a registered one selects Basic authentication when
  it is an HTTP \<open>basic\<close> scheme or when its name contains \<open>basic\<close>. The left result is the
  message of a thrown error.
\<close>

fun use_basic_auth :: "jobject option \<Rightarrow> string list \<Rightarrow> string + bool" where
  "use_basic_auth reg [] = Inr False"
| "use_basic_auth reg (schemeName # rest) =
     (case registered reg schemeName of
        None \<Rightarrow> use_basic_auth reg rest
      | Some scheme \<Rightarrow>
          if \<not> truthy (Some scheme) then use_basic_auth reg rest
          else (case is_http_scheme scheme ''basic'' of
                  None \<Rightarrow> Inl type_error
                | Some True \<Rightarrow> Inr True
                | Some False \<Rightarrow>
                    if str_includes (toLowerCase schemeName) ''basic''
                       \<or> str_includes (toLowerCase schemeName) ''basic_auth'' then Inr True
                    else use_basic_auth reg rest))"

text \<open>The token of a Bearer scheme: argument, else cached token, else one exchange.\<close>

definition bearer_token :: "upstream \<Rightarrow> jobject \<Rightarrow> server \<Rightarrow> (string + jval) \<times> server" where
  "bearer_token up args s =
     (let token = js_or (js_get args ''api_token'') (apiToken s)
      in case (if \<not> truthy token then authenticate up s else (Inr (), s)) of
           (Inl e, s1) \<Rightarrow> (Inl e, s1)
         | (Inr u, s1) \<Rightarrow>
             (case js_or (js_get args ''api_token'') (apiToken s1) of
                None \<Rightarrow> (Inl ''Missing bearer token (api_token)'', s1)
              | Some finalToken \<Rightarrow>
                  if \<not> truthy (Some finalToken) then (Inl ''Missing bearer token (api_token)'', s1)
                  else (Inr finalToken, s1)))"

text \<open>
  The second loop, run when Basic authentication was not selected: the first registered
  HTTP \<open>bearer\<close> scheme sets the \<open>Authorization\<close> header and ends the loop.
\<close>

fun apply_bearer ::
  "upstream \<Rightarrow> jobject \<Rightarrow> jobject option \<Rightarrow> string list \<Rightarrow> jobject \<Rightarrow> server
     \<Rightarrow> (string + jobject) \<times> server" where
  "apply_bearer up args reg [] hs s = (Inr hs, s)"
| "apply_bearer up args reg (schemeName # rest) hs s =
     (case registered reg schemeName of
        None \<Rightarrow> apply_bearer up args reg rest hs s
      | Some scheme \<Rightarrow>
          if \<not> truthy (Some scheme) then apply_bearer up args reg rest hs s
          else (case is_http_scheme scheme ''bearer'' of
                  None \<Rightarrow> (Inl type_error, s)
                | Some False \<Rightarrow> apply_bearer up args reg rest hs s
                | Some True \<Rightarrow>
                    (case bearer_token up args s of
                       (Inl e, s1) \<Rightarrow> (Inl e, s1)
                     | (Inr finalToken, s1) \<Rightarrow>
                         (case to_String finalToken of
                            None \<Rightarrow> (Inl type_error, s1)
                          | Some txt \<Rightarrow>
                              (Inr (set_prop hs ''Authorization'' (JStr (''Bearer '' @ txt))), s1)))))"

text \<open>
  Only the first requirement is looked at. The result is \<open>useBasicAuth\<close> and the headers,
  or the thrown message.
\<close>

definition apply_security ::
  "upstream \<Rightarrow> operation \<Rightarrow> jobject \<Rightarrow> jobject \<Rightarrow> server \<Rightarrow> (string + bool \<times> jobject) \<times> server" where
  "apply_security up op args hs s =
     (case security op of
        [] \<Rightarrow> (Inr (False, hs), s)
      | requirement # others \<Rightarrow>
          (case use_basic_auth (registry s) requirement of
             Inl e \<Rightarrow> (Inl e, s)
           | Inr True \<Rightarrow> (Inr (True, obj_delete hs ''Authorization''), s)
           | Inr False \<Rightarrow>
               (case apply_bearer up args (registry s) requirement hs s of
                  (Inl e, s1) \<Rightarrow> (Inl e, s1)
                | (Inr hs1, s1) \<Rightarrow> (Inr (False, hs1), s1))))"

subsection \<open>Execution\<close>

definition send_request :: "upstream \<Rightarrow> request \<Rightarrow> server \<Rightarrow> (string + tool_result) \<times> server" where
  "send_request up rq s =
     (let s1 = s\<lparr>wire := wire s @ [ApiRequest rq]\<rparr>
      in case api_endpoint up (wire s) rq of
           HttpError e \<Rightarrow> (Inl e, s1)
         | HttpOk d \<Rightarrow> (Inr (ToolSuccess d), s1))"

definition axios_config ::
  "operation \<Rightarrow> string \<Rightarrow> jobject \<Rightarrow> jval option \<Rightarrow> jobject \<Rightarrow> (string \<times> string) option
     \<Rightarrow> request" where
  "axios_config op urlPath qp data hs auth =
     \<lparr>rq_method = op_method op, rq_url = urlPath,
      rq_params = (if qp = [] then None else Some qp),
      rq_data = data, rq_headers = hs, rq_auth = auth\<rparr>"

text \<open>
  The handler stores \<open>useBasicAuth\<close> in the operation descriptor and reads it back two
  statements later; the flag is passed as an argument here. Without the user name or the
  password Basic authentication throws before anything is sent.
\<close>

definition execute ::
  "upstream \<Rightarrow> operation \<Rightarrow> string \<Rightarrow> jobject \<Rightarrow> jval option \<Rightarrow> bool \<Rightarrow> jobject \<Rightarrow> server
     \<Rightarrow> (string + tool_result) \<times> server" where
  "execute up op urlPath qp data useBasicAuth hs s =
     (if useBasicAuth then
        (if username s = [] \<or> password s = [] then
           (Inl ''SCANPOWER_USERNAME and SCANPOWER_PASSWORD are required for basic authentication'', s)
         else send_request up
                (axios_config op urlPath qp data hs (Some (username s, password s))) s)
      else send_request up (axios_config op urlPath qp data hs None) s)"

text \<open>
  The body of the \<open>try\<close> block once the operation has been found. First the four build
  steps: the URL with its trailing slash restored, the query set, the headers, the body,
  and the inputs found missing on the way.
\<close>

definition collect_inputs ::
  "upstream \<Rightarrow> operation \<Rightarrow> jobject \<Rightarrow> server
     \<Rightarrow> (string + string \<times> jobject \<times> jobject \<times> jval option \<times> missing_input list) \<times> server" where
  "collect_inputs up op args s =
     (case build_url args (paramDefs_path op) (pathParams op) (op_path op) [] of
        (Some e, urlPath0, missing1) \<Rightarrow> (Inl e, s)
      | (None, urlPath0, missing1) \<Rightarrow>
     (case build_query args (paramDefs_query op) (queryParams op) [] missing1 of
        (qp, missing2) \<Rightarrow>
     (case build_headers up args (paramDefs_header op) (headerParams op) [] missing2 s of
        (hs, missing3, s1) \<Rightarrow>
       (Inr (restore_slash op urlPath0, qp, hs, js_get args ''body'',
             (if bodyRequired op \<and> js_get args ''body'' = None
              then missing3 @ [body_missing op] else missing3)),
        s1))))"

text \<open>
  Then the elicitation check, security and execution. The left result is a thrown
  message.
\<close>

definition dispatch ::
  "upstream \<Rightarrow> operation \<Rightarrow> jobject \<Rightarrow> server \<Rightarrow> (string + tool_result) \<times> server" where
  "dispatch up op args s =
     (case collect_inputs up op args s of
        (Inl e, s1) \<Rightarrow> (Inl e, s1)
      | (Inr (urlPath, qp, hs, data, missingInputs), s1) \<Rightarrow>
          (let filteredMissing = filter (\<lambda>mi. mi_name mi \<noteq> ''api_token'') missingInputs
           in if filteredMissing \<noteq> [] then (Inr (Elicitation (map to_required filteredMissing)), s1)
              else (case apply_security up op args hs s1 of
                      (Inl e, s2) \<Rightarrow> (Inl e, s2)
                    | (Inr (useBasicAuth, hs1), s2) \<Rightarrow>
                        execute up op urlPath qp data useBasicAuth hs1 s2)))"

text \<open>
  The \<open>proxy_user_id\<close> argument, when it is a string that is not empty after trimming.
\<close>

definition proxy_user_arg :: "jobject option \<Rightarrow> string option" where
  "proxy_user_arg typedArgs =
     (case typedArgs of
        None \<Rightarrow> None
      | Some a \<Rightarrow>
          (case js_get a ''proxy_user_id'' of
             Some (JStr v) \<Rightarrow> if length (trim v) > 0 then Some (trim v) else None
           | _ \<Rightarrow> None))"

text \<open>
  The \<open>catch\<close> block builds its reply from \<open>op.method\<close>. When the error was thrown because
  the tool is unknown, \<open>op\<close> is \<open>undefined\<close> and this read throws a TypeError out of the
  handler.
\<close>

definition catch_block :: "operation option \<Rightarrow> string \<Rightarrow> outcome" where
  "catch_block op message =
     (case op of
        None \<Rightarrow> Escaped ''TypeError: Cannot read properties of undefined (reading method)''
      | Some d \<Rightarrow> Returned (ToolError message))"

text \<open>
  The answer of \<open>getProxyUsers\<close> is turned into a list of users before it is returned:
  the entries of the response when it is an array, or else of its \<open>items\<close>; for each, the
  \<open>id\<close> is printed, and the \<open>name\<close> when it is truthy. Printing can throw, which makes the
  call end in the \<open>catch\<close> block although the request has been answered.
\<close>

definition listed_users :: "jval \<Rightarrow> jval list" where
  "listed_users d =
     (case d of
        JArr xs \<Rightarrow> xs
      | _ \<Rightarrow> if truthy (Some d)
             then (case get_field d ''items'' of Some (JArr ys) \<Rightarrow> ys | _ \<Rightarrow> [])
             else [])"

definition user_throws :: "jval \<Rightarrow> bool" where
  "user_throws u =
     ((case coalesce (get_field u ''id'') (Some (JStr [])) of
         None \<Rightarrow> False | Some v \<Rightarrow> to_String v = None)
      \<or> (case get_field u ''name'' of
            None \<Rightarrow> False | Some v \<Rightarrow> truthy (Some v) \<and> to_String v = None))"

definition render_response :: "string \<Rightarrow> tool_result \<Rightarrow> string + tool_result" where
  "render_response name r =
     (case r of
        ToolSuccess d \<Rightarrow>
          if name = ''getProxyUsers'' \<and> list_ex user_throws (listed_users d)
          then Inl type_error else Inr r
      | _ \<Rightarrow> Inr r)"

text \<open>The lookup in \<open>operationMap\<close> and everything after it, with the \<open>catch\<close> block.\<close>

definition argsOrEmpty :: "jobject option \<Rightarrow> jobject" where
  "argsOrEmpty typedArgs = (case typedArgs of None \<Rightarrow> [] | Some a \<Rightarrow> a)"

definition lookup_and_dispatch ::
  "upstream \<Rightarrow> string \<Rightarrow> jobject option \<Rightarrow> server \<Rightarrow> outcome \<times> server" where
  "lookup_and_dispatch up name typedArgs s =
     (case map_of (operationMap s) name of
        None \<Rightarrow> (catch_block None (''Unknown tool: '' @ name), s)
      | Some op \<Rightarrow>
          (case dispatch up op (argsOrEmpty typedArgs) s of
             (Inl e, s1) \<Rightarrow> (catch_block (Some op) e, s1)
           | (Inr r, s1) \<Rightarrow>
               (case render_response name r of
                  Inl e \<Rightarrow> (catch_block (Some op) e, s1)
                | Inr r' \<Rightarrow> (Returned r', s1))))"

text \<open>The handler of \<open>CallToolRequestSchema\<close>.\<close>

definition call_tool :: "upstream \<Rightarrow> string \<Rightarrow> jobject option \<Rightarrow> server \<Rightarrow> outcome \<times> server" where
  "call_tool up name typedArgs s =
     (if \<not> isReady s then (Returned NotReady, s)
      else
        (case proxy_user_arg typedArgs of
           Some v \<Rightarrow>
             if name = ''getProxyUsers'' then (Returned (ProxyUserSet v), setProxyUserId (Some v) s)
             else lookup_and_dispatch up name typedArgs (setProxyUserId (Some v) s)
         | None \<Rightarrow> lookup_and_dispatch up name typedArgs s))"

section \<open>The operation compiler and the specification loader\<close>

text \<open>\<open>pathKey.replace(/[^a-zA-Z0-9]+/g, '_')\<close>: each run of other characters becomes one \<open>_\<close>.\<close>

definition is_alnum :: "char \<Rightarrow> bool" where
  "is_alnum c =
     (let n = (of_char c :: nat)
      in (65 \<le> n \<and> n \<le> 90) \<or> (97 \<le> n \<and> n \<le> 122) \<or> (48 \<le> n \<and> n \<le> 57))"

function collapse_non_alnum :: "string \<Rightarrow> string" where
  "collapse_non_alnum [] = []"
| "collapse_non_alnum (c # cs) =
     (if is_alnum c then c # collapse_non_alnum cs
      else CHR ''_'' # collapse_non_alnum (dropWhile (\<lambda>d. \<not> is_alnum d) cs))"
  by pat_completeness auto
termination
  by (relation "measure length") (auto simp: less_Suc_eq_le length_dropWhile_le)

definition string_or :: "string option \<Rightarrow> string \<Rightarrow> string" where
  "string_or a b = (case a of None \<Rightarrow> b | Some x \<Rightarrow> if x = [] then b else x)"

text \<open>
  Reference parameters are replaced by what the pointer leads to. A pointer that leads
  nowhere leaves the reference object itself in the list; it has no \<open>in\<close> and so enters
  no bucket, which is why it is dropped here.
\<close>

definition resolve_params :: "openapi \<Rightarrow> param_entry list \<Rightarrow> parameter list" where
  "resolve_params doc rawParams =
     concat (map (\<lambda>e. case e of
                         Inline p \<Rightarrow> [p]
                       | Reference r \<Rightarrow> (case map_of (oa_refs doc) r of None \<Rightarrow> [] | Some p \<Rightarrow> [p]))
                 rawParams)"

definition names_in :: "string \<Rightarrow> parameter list \<Rightarrow> string list" where
  "names_in loc params = map pm_name (filter (\<lambda>p. pm_in p = loc) params)"

definition schema_of_types :: "string list \<Rightarrow> jval" where
  "schema_of_types ts = JObj [(''type'', JArr (map JStr ts))]"

definition input_properties :: "string list \<Rightarrow> string list \<Rightarrow> string list \<Rightarrow> bool \<Rightarrow> jobject" where
  "input_properties ps qs hs requiresBody =
     (let props1 = foldl (\<lambda>acc p. set_prop acc (sanitize p) (JObj [(''type'', JStr ''string'')])) [] ps;
          props2 = foldl (\<lambda>acc q. set_prop acc (sanitize q)
                             (schema_of_types [''string'', ''number'', ''boolean'', ''array'', ''object'']))
                         props1 qs;
          props3 = foldl (\<lambda>acc h. set_prop acc (sanitize h) (JObj [(''type'', JStr ''string'')])) props2 hs;
          props4 = (if requiresBody
                    then obj_set props3 ''body''
                           (schema_of_types [''object'', ''array'', ''string'', ''number'', ''boolean'', ''null''])
                    else props3)
      in obj_set props4 ''api_token''
           (JObj [(''type'', JStr ''string''),
                  (''description'', JStr ''Optional token for bearer/apiKey auth'')]))"

text \<open>One iteration of the inner loop of \<open>generateFromCurrentOpenApi\<close>, for an operation that exists.\<close>

definition compile_operation ::
  "openapi \<Rightarrow> string \<Rightarrow> path_item \<Rightarrow> string \<Rightarrow> operation_decl \<Rightarrow> tool \<times> operation" where
  "compile_operation doc pathKey pathItem m od =
     (let operationId = string_or (od_operationId od) (m @ ''_'' @ collapse_non_alnum pathKey);
          description = string_or (od_summary od)
                          (string_or (od_description od) (toUpperCase m @ '' '' @ pathKey));
          params = resolve_params doc (pi_parameters pathItem @ od_parameters od);
          ps = names_in ''path'' params;
          qs = names_in ''query'' params;
          hs = names_in ''header'' params;
          requiresBody = (case od_content od of
                            None \<Rightarrow> False
                          | Some content \<Rightarrow> ''application/json'' \<in> set (map fst content));
          schema = (case od_content od of
                      None \<Rightarrow> None
                    | Some content \<Rightarrow>
                        (case map_of content ''application/json'' of None \<Rightarrow> None | Some sch \<Rightarrow> sch));
          required = map sanitize ps;
          slash = ((pathKey \<noteq> [] \<and> endsWith pathKey ''/'')
                   \<or> (pathKey = ''/account'' \<and> operationId = ''getProxyUsers''))
      in (\<lparr>t_name = operationId, t_description = description,
           t_properties = input_properties ps qs hs requiresBody,
           t_required = (if required = [] then None else Some required)\<rparr>,
          \<lparr>op_method = toUpperCase m, op_path = pathKey, pathHasTrailingSlash = slash,
           pathParams = ps, queryParams = qs, headerParams = hs,
           paramDefs_path = filter (\<lambda>p. pm_in p = ''path'') params,
           paramDefs_query = filter (\<lambda>p. pm_in p = ''query'') params,
           paramDefs_header = filter (\<lambda>p. pm_in p = ''header'') params,
           security = (case od_security od of
                         Some req \<Rightarrow> req
                       | None \<Rightarrow> (case oa_security doc of Some req \<Rightarrow> req | None \<Rightarrow> [])),
           bodyRequired = requiresBody, bodySchema = schema\<rparr>))"

definition methods :: "string list" where
  "methods = [''get'', ''post'', ''put'', ''delete'', ''patch'']"

definition compile_path ::
  "openapi \<Rightarrow> tool list \<times> (string \<times> operation) list \<Rightarrow> string \<times> path_item
     \<Rightarrow> tool list \<times> (string \<times> operation) list" where
  "compile_path doc acc entry =
     foldl (\<lambda>(tools, opMap) m.
              case map_of (pi_operations (snd entry)) m of
                None \<Rightarrow> (tools, opMap)
              | Some od \<Rightarrow>
                  (case compile_operation doc (fst entry) (snd entry) m od of
                     (t, op) \<Rightarrow> (tools @ [t], obj_set opMap (t_name t) op)))
           acc methods"

definition generate :: "openapi \<Rightarrow> tool list \<times> (string \<times> operation) list" where
  "generate doc = foldl (compile_path doc) ([], []) (oa_paths doc)"

text \<open>
  What fetching the specification gives: the request fails; the text does not parse; the
  document is there (\<open>None\<close> for a falsy one such as \<open>null\<close>); or the document is
  malformed in a way that makes the compiler throw.
\<close>

datatype spec_response = FetchFailed | Unparsable | Document "openapi option" | Malformed

definition is_http_url :: "string \<Rightarrow> bool" where
  "is_http_url src =
     (startsWith (toLowerCase src) ''http://'' \<or> startsWith (toLowerCase src) ''https://'')"

definition is_blob_url :: "string \<Rightarrow> bool" where
  "is_blob_url src =
     (startsWith (toLowerCase src) ''blob:http://'' \<or> startsWith (toLowerCase src) ''blob:https://'')"

definition cleared :: "server \<Rightarrow> server" where
  "cleared s = s\<lparr>openApi := None, generatedTools := [], operationMap := []\<rparr>"

text \<open>
  \<open>generateFromCurrentOpenApi\<close>: without a document the tables are emptied and the
  function returns; otherwise the tables are built and \<open>isReady\<close> is set.
\<close>

definition generateFromCurrentOpenApi :: "server \<Rightarrow> server" where
  "generateFromCurrentOpenApi s =
     (case openApi s of
        None \<Rightarrow> s\<lparr>generatedTools := [], operationMap := []\<rparr>
      | Some doc \<Rightarrow>
          (case generate doc of
             (tools, opMap) \<Rightarrow> s\<lparr>generatedTools := tools, operationMap := opMap, isReady := True\<rparr>))"

text \<open>
  \<open>loadOpenApiAndGenerateTools\<close>, for the value of \<open>SCANPOWER_OPENAPI_SPEC\<close> (\<open>None\<close> when
  unset) and the answer the URL gives. Only a source that is an HTTP(S) or blob URL
  enters the branch; the function has no other branch.
\<close>

definition loadOpenApiAndGenerateTools ::
  "string option \<Rightarrow> (string \<Rightarrow> spec_response) \<Rightarrow> server \<Rightarrow> server" where
  "loadOpenApiAndGenerateTools specSource fetch s =
     (case specSource of
        None \<Rightarrow> s
      | Some src \<Rightarrow>
          if src \<noteq> [] \<and> (is_http_url src \<or> is_blob_url src) then
            (if is_blob_url src then (cleared s)\<lparr>isReady := True\<rparr>
             else
               (case fetch src of
                  FetchFailed \<Rightarrow> (cleared s)\<lparr>isReady := True\<rparr>
                | Unparsable \<Rightarrow> (cleared s)\<lparr>isReady := True\<rparr>
                | Malformed \<Rightarrow> (cleared s)\<lparr>isReady := True\<rparr>
                | Document d \<Rightarrow> generateFromCurrentOpenApi ((cleared s)\<lparr>openApi := d\<rparr>)))
          else s)"

text \<open>The server as its constructor leaves it, for the credentials of the environment.\<close>

definition new_server :: "string \<Rightarrow> string \<Rightarrow> string option \<Rightarrow> string \<Rightarrow> server" where
  "new_server user pass proxy marketplace =
     \<lparr>isReady = False, openApi = None, operationMap = [], generatedTools = [],
      username = user, password = pass, proxyUserId = proxy, marketplaceId = marketplace,
      apiToken = Some JNull, amazonAccessToken = Some JNull, wire = []\<rparr>"


section \<open>What a call sends and changes\<close>

text \<open>The events a step adds to the log.\<close>

definition new_events :: "server \<Rightarrow> server \<Rightarrow> event list" where
  "new_events s s' = drop (length (wire s)) (wire s')"

fun is_vendor_fetch :: "event \<Rightarrow> bool" where
  "is_vendor_fetch (VendorTokenFetch m) = True"
| "is_vendor_fetch e = False"

fun is_auth_exchange :: "event \<Rightarrow> bool" where
  "is_auth_exchange (AuthExchange x) = True"
| "is_auth_exchange e = False"

definition vendor_step :: "server \<Rightarrow> server \<Rightarrow> bool" where
  "vendor_step s s' \<longleftrightarrow>
     (\<exists>evs a. s' = s\<lparr>amazonAccessToken := a, wire := wire s @ evs\<rparr> \<and> (\<forall>e\<in>set evs. is_vendor_fetch e))"

text \<open>
  A step of the header loop changes nothing but the cached vendor token and sends
  nothing but vendor-token fetches; a whole call changes nothing but the two cached
  tokens and the log.
\<close>

definition session_step :: "server \<Rightarrow> server \<Rightarrow> bool" where
  "session_step s s' \<longleftrightarrow>
     (\<exists>evs a t. s' = s\<lparr>apiToken := t, amazonAccessToken := a, wire := wire s @ evs\<rparr>)"

text \<open>
  Security adds at most one token exchange, and changes nothing but the cached bearer
  token.
\<close>

definition auth_step :: "server \<Rightarrow> server \<Rightarrow> bool" where
  "auth_step s s' \<longleftrightarrow>
     s' = s \<or> (\<exists>x t. s' = s\<lparr>apiToken := t, wire := wire s @ [AuthExchange x]\<rparr>)"

text \<open>
  The session the lookup runs on (the delegated user already set), and the URL the
  build step gives for an operation and the caller's arguments.
\<close>

definition with_proxy :: "jobject option \<Rightarrow> server \<Rightarrow> server" where
  "with_proxy typedArgs s =
     (case proxy_user_arg typedArgs of None \<Rightarrow> s | Some v \<Rightarrow> setProxyUserId (Some v) s)"

definition built_url :: "operation \<Rightarrow> jobject option \<Rightarrow> string" where
  "built_url op typedArgs =
     restore_slash op
       (fst (snd (build_url (argsOrEmpty typedArgs) (paramDefs_path op) (pathParams op) (op_path op) [])))"

text \<open>
  A scheme name of a requirement that stands for Basic authentication: it is registered
  in the document, and it is an HTTP \<open>basic\<close> scheme or its name contains \<open>basic\<close>.
\<close>

definition names_basic_scheme :: "jobject option \<Rightarrow> string \<Rightarrow> bool" where
  "names_basic_scheme reg n =
     (case registered reg n of
        None \<Rightarrow> False
      | Some scheme \<Rightarrow>
          truthy (Some scheme)
          \<and> (is_http_scheme scheme ''basic'' = Some True \<or> str_includes (toLowerCase n) ''basic''))"

text \<open>
  A scheme name that stands for Bearer authentication, the \<open>Authorization\<close> value made
  from a token, and the \<open>X-Proxy\<close> value a token exchange carries.
\<close>

definition names_bearer_scheme :: "jobject option \<Rightarrow> string \<Rightarrow> bool" where
  "names_bearer_scheme reg n =
     (case registered reg n of
        None \<Rightarrow> False
      | Some scheme \<Rightarrow> truthy (Some scheme) \<and> is_http_scheme scheme ''bearer'' = Some True)"

text \<open>
  The schemes a requirement names can be examined without an error when the \<open>type\<close> and
  the \<open>scheme\<close> of each registered one can be printed.
\<close>

definition printable_schemes :: "jobject option \<Rightarrow> string list \<Rightarrow> bool" where
  "printable_schemes reg requirement =
     list_all (\<lambda>n. case registered reg n of
                      None \<Rightarrow> True
                    | Some scheme \<Rightarrow> truthy (Some scheme) \<longrightarrow> is_http_scheme scheme ''basic'' \<noteq> None)
              requirement"

definition x_proxy :: "server \<Rightarrow> string option" where
  "x_proxy s = (case proxyUserId s of None \<Rightarrow> None | Some u \<Rightarrow> if u = [] then None else Some u)"

text \<open>
  The required inputs a call leaves out, as the elicitation reply lists them: declared
  path parameters, query and header parameters whose definition is marked required, and
  the body of an operation that requires one. Left out of the list are the inputs whose
  sanitized name is \<open>api_token\<close> and the header \<open>x-access-token\<close>. A parameter counts as
  absent when \<open>lookup_arg\<close> finds no value, which is the case when neither its name nor
  its sanitized name is a key of the arguments.
\<close>

definition absent_inputs :: "operation \<Rightarrow> jobject \<Rightarrow> required_input list" where
  "absent_inputs op args =
     map (\<lambda>p. to_required (missing_of (paramDefs_path op) p ''path''))
         (filter (\<lambda>p. lookup_arg args p = None \<and> sanitize p \<noteq> ''api_token'') (pathParams op))
     @ map (\<lambda>q. to_required (missing_of (paramDefs_query op) q ''query''))
         (filter (\<lambda>q. lookup_arg args q = None \<and> def_required (paramDefs_query op) q
                       \<and> sanitize q \<noteq> ''api_token'') (queryParams op))
     @ map (\<lambda>h. to_required (missing_of (paramDefs_header op) h ''header''))
         (filter (\<lambda>h. h \<noteq> ''x-access-token'' \<and> lookup_arg args h = None
                       \<and> def_required (paramDefs_header op) h \<and> sanitize h \<noteq> ''api_token'')
                 (headerParams op))
     @ (if bodyRequired op \<and> js_get args ''body'' = None then [to_required (body_missing op)] else [])"

text \<open>
  The entry \<open>x-access-token\<close> of an elicitation reply, and the condition under which the
  path loop throws nothing: every path value found can be printed.
\<close>

definition access_token_input :: "operation \<Rightarrow> required_input" where
  "access_token_input op = to_required (missing_of (paramDefs_header op) ''x-access-token'' ''header'')"

definition printable_paths :: "operation \<Rightarrow> jobject \<Rightarrow> bool" where
  "printable_paths op args =
     list_all (\<lambda>p. case lookup_arg args p of None \<Rightarrow> True | Some v \<Rightarrow> to_String v \<noteq> None)
              (pathParams op)"

text \<open>
  When the header loop may, and when it must, find a header parameter without a value.
\<close>

definition may_miss :: "jobject \<Rightarrow> server \<Rightarrow> string \<Rightarrow> bool" where
  "may_miss args s h \<longleftrightarrow>
     (h = ''x-access-token'' \<and> \<not> truthy (lookup_arg args h) \<and> \<not> truthy (amazonAccessToken s))
     \<or> (h \<noteq> ''x-access-token'' \<and> lookup_arg args h = None)"

definition must_miss :: "jobject \<Rightarrow> string \<Rightarrow> bool" where
  "must_miss args h \<longleftrightarrow> h \<noteq> ''x-access-token'' \<and> lookup_arg args h = None"

text \<open>
  What the HTTP client sends of the headers of a configuration: it leaves out an entry
  whose value is \<open>null\<close> or \<open>false\<close>. Header names are compared without regard to case.
\<close>

definition sent_headers :: "request \<Rightarrow> jobject" where
  "sent_headers rq = filter (\<lambda>kv. snd kv \<noteq> JNull \<and> snd kv \<noteq> JBool False) (rq_headers rq)"

definition same_header :: "string \<Rightarrow> string \<Rightarrow> bool" where
  "same_header k n = (toLowerCase k = toLowerCase n)"

text \<open>
  The cached vendor token does not change during a call when one is cached already or
  when every fetch fails; the value of a header is then a function of its name.
\<close>

definition token_stable :: "upstream \<Rightarrow> server \<Rightarrow> bool" where
  "token_stable up s \<longleftrightarrow>
     truthy (amazonAccessToken s) \<or> (\<forall>w. \<exists>e. vendor_endpoint up w = HttpError e)"

definition header_val :: "jobject \<Rightarrow> jval option \<Rightarrow> string \<Rightarrow> jval option" where
  "header_val args cached h =
     (if h = ''x-access-token'' \<and> \<not> truthy (lookup_arg args h) then cached else lookup_arg args h)"

section \<open>Path templates\<close>

text \<open>
  A path template read as its pieces: literal text, and holes \<open>{name}\<close>. The dispatcher
  works on the rendered text; the pieces say what that text is made of. A template is
  well formed when neither its literal text nor its names contain a brace and no name has
  two holes. \<open>fill\<close> puts a text in the place of a hole; \<open>substituted\<close> puts into the hole
  of every path parameter that has a value this value, printed and URL-encoded, and leaves
  the other holes as they are.
\<close>

datatype segment = Lit string | Hole string

fun render_segment :: "segment \<Rightarrow> string" where
  "render_segment (Lit x) = x"
| "render_segment (Hole p) = ''{'' @ p @ ''}''"

definition render :: "segment list \<Rightarrow> string" where
  "render toks = concat (map render_segment toks)"

definition brace_free :: "string \<Rightarrow> bool" where
  "brace_free x = (CHR ''{'' \<notin> set x \<and> CHR ''}'' \<notin> set x)"

fun segment_text :: "segment \<Rightarrow> string" where
  "segment_text (Lit x) = x"
| "segment_text (Hole p) = p"

fun holes :: "segment list \<Rightarrow> string list" where
  "holes [] = []"
| "holes (Lit x # toks) = holes toks"
| "holes (Hole p # toks) = p # holes toks"

definition well_formed :: "segment list \<Rightarrow> bool" where
  "well_formed toks = (list_all (\<lambda>t. brace_free (segment_text t)) toks \<and> distinct (holes toks))"

definition fill :: "string \<Rightarrow> string \<Rightarrow> segment list \<Rightarrow> segment list" where
  "fill p e toks = map (\<lambda>t. if t = Hole p then Lit e else t) toks"

definition path_value :: "jobject \<Rightarrow> string \<Rightarrow> string option" where
  "path_value args p =
     (case lookup_arg args p of
        None \<Rightarrow> None
      | Some v \<Rightarrow> map_option encodeURIComponent (to_String v))"

definition substituted :: "jobject \<Rightarrow> string list \<Rightarrow> segment list \<Rightarrow> segment list" where
  "substituted args ps toks =
     map (\<lambda>t. case t of
                 Lit x \<Rightarrow> Lit x
               | Hole p \<Rightarrow>
                   (if p \<in> set ps
                    then (case path_value args p of None \<Rightarrow> Hole p | Some e \<Rightarrow> Lit e)
                    else Hole p))
         toks"

section \<open>A sample specification\<close>

text \<open>
  A small document with a parameterised path that ends in a slash, a path parameter
  named \<open>api_token\<close>, a body with a required query parameter, and the proxy-user
  listing under Basic authentication; an upstream whose vendor-token endpoint fails,
  one whose vendor-token endpoint answers, and one whose vendor-token endpoint first
  answers without a token and fails from then on. A second document has a path with two
  parameters, one of them named \<open>api_token\<close>, a path parameter named \<open>constructor\<close>, a
  requirement that names an unregistered scheme \<open>basicAuth\<close> beside \<open>bearerAuth\<close>, and an
  operation under Basic authentication that declares a header \<open>authorization\<close>.
\<close>

definition sample_param :: "string \<Rightarrow> string \<Rightarrow> bool \<Rightarrow> parameter" where
  "sample_param n loc req =
     \<lparr>pm_name = n, pm_in = loc, pm_required = Some (JBool req),
      pm_description = Some (JStr (''the '' @ n)), pm_schema = Some (JObj [(''type'', JStr ''string'')])\<rparr>"

definition sample_op :: "string \<Rightarrow> param_entry list \<Rightarrow> bool \<Rightarrow> string list list option \<Rightarrow> operation_decl" where
  "sample_op opid params body sec =
     \<lparr>od_operationId = Some opid, od_summary = None, od_description = None,
      od_parameters = params,
      od_content = (if body then Some [(''application/json'', None)] else None),
      od_security = sec\<rparr>"

definition get_widget :: operation_decl where
  "get_widget = sample_op ''getWidget'' [Inline (sample_param ''x-access-token'' ''header'' True)] False None"

definition widgets_item :: path_item where
  "widgets_item =
     \<lparr>pi_parameters = [Inline (sample_param ''id'' ''path'' True)],
      pi_operations = [(''get'', get_widget)]\<rparr>"

definition check_token :: operation_decl where
  "check_token = sample_op ''checkToken'' [Inline (sample_param ''api_token'' ''path'' True)] False (Some [])"

definition tokens_item :: path_item where
  "tokens_item = \<lparr>pi_parameters = [], pi_operations = [(''get'', check_token)]\<rparr>"

definition create_order :: operation_decl where
  "create_order = sample_op ''createOrder'' [Inline (sample_param ''shop.id'' ''query'' True)] True (Some [])"

definition orders_item :: path_item where
  "orders_item = \<lparr>pi_parameters = [], pi_operations = [(''post'', create_order)]\<rparr>"

definition get_proxy_users :: operation_decl where
  "get_proxy_users =
     sample_op ''getProxyUsers'' [Inline (sample_param ''Authorization'' ''header'' False)] False
       (Some [[''basic_auth'']])"

definition account_item :: path_item where
  "account_item = \<lparr>pi_parameters = [], pi_operations = [(''get'', get_proxy_users)]\<rparr>"

definition sample_doc :: openapi where
  "sample_doc =
     \<lparr>oa_paths =
        [(''/widgets/{id}/'', widgets_item), (''/tokens/{api_token}'', tokens_item),
         (''/orders'', orders_item), (''/account'', account_item)],
      oa_security = Some [[''bearerAuth'']],
      oa_securitySchemes =
        Some [(''bearerAuth'', JObj [(''type'', JStr ''http''), (''scheme'', JStr ''bearer'')]),
              (''basic_auth'', JObj [(''type'', JStr ''http''), (''scheme'', JStr ''basic'')])],
      oa_refs = []\<rparr>"

definition sample_upstream :: upstream where
  "sample_upstream =
     \<lparr>token_endpoint = (\<lambda>w. HttpOk (JObj [(''token'', JStr ''T1'')])),
      vendor_endpoint = (\<lambda>w. HttpError ''Error: Request failed with status code 500''),
      api_endpoint = (\<lambda>w rq. HttpOk (JStr ''ok''))\<rparr>"

definition vendor_upstream :: upstream where
  "vendor_upstream =
     sample_upstream\<lparr>vendor_endpoint := (\<lambda>w. HttpOk (JObj [(''access_token'', JStr ''AZ1'')]))\<rparr>"

definition sample_server :: server where
  "sample_server =
     loadOpenApiAndGenerateTools (Some ''https://unity.scanpower.com/docs/api/scanpower-api-bundled.json'')
       (\<lambda>url. Document (Some sample_doc)) (new_server ''user'' ''secret'' None ''ATVPDKIKX0DER'')"

definition flaky_upstream :: upstream where
  "flaky_upstream =
     sample_upstream\<lparr>vendor_endpoint :=
       (\<lambda>w. if w = [] then HttpOk (JObj [])
            else HttpError ''Error: Request failed with status code 500'')\<rparr>"

definition shop_token :: operation_decl where
  "shop_token =
     sample_op ''shopToken''
       [Inline (sample_param ''shop'' ''path'' True), Inline (sample_param ''api_token'' ''path'' True)]
       False (Some [])"

definition get_thing :: operation_decl where
  "get_thing = sample_op ''getThing'' [Inline (sample_param ''constructor'' ''path'' True)] False (Some [])"

definition get_report :: operation_decl where
  "get_report = sample_op ''getReport'' [] False (Some [[''basicAuth'', ''bearerAuth'']])"

definition get_ledger :: operation_decl where
  "get_ledger =
     sample_op ''getLedger'' [Inline (sample_param ''authorization'' ''header'' False)] False
       (Some [[''basic_auth'']])"

definition second_doc :: openapi where
  "second_doc =
     \<lparr>oa_paths =
        [(''/shops/{shop}/tokens/{api_token}'', \<lparr>pi_parameters = [], pi_operations = [(''get'', shop_token)]\<rparr>),
         (''/things/{constructor}'', \<lparr>pi_parameters = [], pi_operations = [(''get'', get_thing)]\<rparr>),
         (''/reports'', \<lparr>pi_parameters = [], pi_operations = [(''get'', get_report)]\<rparr>),
         (''/ledger'', \<lparr>pi_parameters = [], pi_operations = [(''get'', get_ledger)]\<rparr>)],
      oa_security = None,
      oa_securitySchemes =
        Some [(''bearerAuth'', JObj [(''type'', JStr ''http''), (''scheme'', JStr ''bearer'')]),
              (''basic_auth'', JObj [(''type'', JStr ''http''), (''scheme'', JStr ''basic'')])],
      oa_refs = []\<rparr>"

definition second_server :: server where
  "second_server =
     loadOpenApiAndGenerateTools (Some ''https://unity.scanpower.com/docs/api/scanpower-api-bundled.json'')
       (\<lambda>url. Document (Some second_doc)) (new_server ''user'' ''secret'' None ''ATVPDKIKX0DER'')"

section \<open>Percent-encoding\<close>

text \<open>
  The encoded text consists of unreserved characters, \<open>%\<close> and hexadecimal digits. It
  therefore has no \<open>$\<close>, which is why \<open>replace_first\<close> may take the replacement
  literally, and it brings no brace or slash into the URL.
\<close>

lemma encodeURIComponent_chars:
  assumes "c \<in> set (encodeURIComponent s)"
  shows "uri_unreserved c \<or> c = CHR ''%'' \<or> (\<exists>d<16. c = hex_digit d)"
proof -
  from assms obtain x where x: "x \<in> set s" and c: "c \<in> set (if uri_unreserved x then [x] else pct_encode x)"
    by (auto simp: encodeURIComponent_def)
  show ?thesis
  proof (cases "uri_unreserved x")
    case True
    with c show ?thesis by simp
  next
    case False
    define n where "n = (of_char x :: nat)"
    have "n < 256" by (simp add: n_def)
    then have d: "n div 16 < 16" and m: "n mod 16 < 16" by arith+
    from False c have "c = CHR ''%'' \<or> c = hex_digit (n div 16) \<or> c = hex_digit (n mod 16)"
      by (auto simp: pct_encode_def Let_def n_def)
    with d m show ?thesis by blast
  qed
qed

lemma hex_digit_code: "d < 16 \<Longrightarrow> (of_char (hex_digit d) :: nat) = (if d < 10 then 48 + d else 55 + d)"
  by (simp add: hex_digit_def)

lemma encodeURIComponent_no_special:
  "CHR ''$'' \<notin> set (encodeURIComponent s) \<and> CHR ''{'' \<notin> set (encodeURIComponent s)
   \<and> CHR ''}'' \<notin> set (encodeURIComponent s) \<and> CHR ''/'' \<notin> set (encodeURIComponent s)"
proof -
  have "c \<notin> set (encodeURIComponent s)"
    if c: "(of_char c :: nat) \<in> {36, 47, 123, 125}" for c
  proof
    assume "c \<in> set (encodeURIComponent s)"
    from encodeURIComponent_chars[OF this] consider
      "uri_unreserved c" | "c = CHR ''%''" | d where "d < 16" "c = hex_digit d" by blast
    then show False
    proof cases
      case 1
      with c show False by (auto simp: uri_unreserved_def Let_def)
    next
      case 2
      with c show False by simp
    next
      case 3
      with c hex_digit_code[of d] show False by (auto split: if_splits)
    qed
  qed
  then show ?thesis by simp
qed

section \<open>Filling a path template\<close>

lemma startsWith_Cons: "startsWith (c # s) (a # pat) \<longleftrightarrow> c = a \<and> startsWith s pat"
  by (auto simp: startsWith_def)

lemma render_Cons: "render (t # toks) = render_segment t @ render toks"
  by (simp add: render_def)

text \<open>A pattern that opens with a brace does not start inside text without one.\<close>

lemma replace_first_skip:
  assumes "CHR ''{'' \<notin> set x"
  shows "replace_first (CHR ''{'' # pat) e (x @ r) = x @ replace_first (CHR ''{'' # pat) e r"
  using assms by (induction x) (auto simp: startsWith_Cons)

text \<open>Two placeholders with brace-free names agree at their start only when the names agree.\<close>

lemma name_prefix_eq:
  assumes "brace_free p" and "brace_free q" and "startsWith (q @ CHR ''}'' # r) (p @ ''}'')"
  shows "p = q"
  using assms
proof (induction p arbitrary: q)
  case Nil
  then show ?case by (cases q) (auto simp: startsWith_Cons brace_free_def)
next
  case (Cons a p')
  show ?case
  proof (cases q)
    case Nil
    with Cons.prems show ?thesis by (auto simp: startsWith_Cons brace_free_def)
  next
    case (Cons c q')
    with Cons.prems have "a = c" and "startsWith (q' @ CHR ''}'' # r) (p' @ ''}'')"
      by (auto simp: startsWith_Cons)
    moreover from Cons.prems Cons have "brace_free p'" "brace_free q'" by (auto simp: brace_free_def)
    ultimately show ?thesis using Cons.IH Cons by auto
  qed
qed

lemma replace_first_hole_other:
  assumes "brace_free p" and "brace_free q" and "q \<noteq> p"
  shows "replace_first (''{'' @ p @ ''}'') e (''{'' @ q @ ''}'' @ r)
           = ''{'' @ q @ ''}'' @ replace_first (''{'' @ p @ ''}'') e r"
proof -
  have ns: "\<not> startsWith (CHR ''{'' # q @ CHR ''}'' # r) (CHR ''{'' # p @ ''}'')"
    using name_prefix_eq[OF assms(1,2), of r] assms(3) by (auto simp: startsWith_Cons)
  have nb: "CHR ''{'' \<notin> set (q @ ''}'')" using assms(2) by (simp add: brace_free_def)
  have "replace_first (CHR ''{'' # p @ ''}'') e (CHR ''{'' # q @ CHR ''}'' # r)
          = CHR ''{'' # replace_first (CHR ''{'' # p @ ''}'') e ((q @ ''}'') @ r)"
    using ns by simp
  also have "\<dots> = CHR ''{'' # (q @ ''}'') @ replace_first (CHR ''{'' # p @ ''}'') e r"
    using replace_first_skip[OF nb] by simp
  finally show ?thesis by simp
qed

lemma replace_first_hole_same:
  "replace_first (''{'' @ p @ ''}'') e (''{'' @ p @ ''}'' @ r) = e @ r"
proof -
  have "startsWith (CHR ''{'' # p @ CHR ''}'' # r) (CHR ''{'' # p @ ''}'')"
    by (simp add: startsWith_def)
  then show ?thesis by simp
qed

lemma holes_set: "Hole p \<in> set toks \<longleftrightarrow> p \<in> set (holes toks)"
  by (induction toks rule: holes.induct) auto

lemma fill_absent: "p \<notin> set (holes toks) \<Longrightarrow> fill p e toks = toks"
  unfolding fill_def holes_set[symmetric] by (induction toks) auto

text \<open>On a well-formed template, replacing the placeholder text fills the hole.\<close>

lemma replace_first_render:
  assumes "well_formed toks" and "brace_free p"
  shows "replace_first (''{'' @ p @ ''}'') e (render toks) = render (fill p e toks)"
  using assms(1)
proof (induction toks)
  case Nil
  then show ?case by (simp add: render_def fill_def)
next
  case (Cons t toks)
  from Cons.prems have wf: "well_formed toks" and bt: "brace_free (segment_text t)"
    by (cases t; auto simp: well_formed_def)+
  note ih = Cons.IH[OF wf]
  show ?case
  proof (cases t)
    case (Lit x)
    with bt have "CHR ''{'' \<notin> set x" by (simp add: brace_free_def)
    from replace_first_skip[OF this, of "p @ ''}''" e "render toks"] ih Lit
    show ?thesis by (simp add: render_Cons fill_def)
  next
    case (Hole q)
    show ?thesis
    proof (cases "q = p")
      case True
      with Hole Cons.prems have "p \<notin> set (holes toks)" by (simp add: well_formed_def)
      then have "fill p e toks = toks" by (rule fill_absent)
      then have "fill p e (t # toks) = Lit e # toks" using Hole True by (simp add: fill_def)
      then show ?thesis
        using Hole True replace_first_hole_same[of p e "render toks"] by (simp add: render_Cons)
    next
      case False
      with Hole have f: "fill p e (t # toks) = Hole q # fill p e toks" by (simp add: fill_def)
      from bt Hole have "brace_free q" by simp
      from replace_first_hole_other[OF assms(2) this False, of e "render toks"] ih
      show ?thesis using Hole f by (simp add: render_Cons)
    qed
  qed
qed

lemma holes_fill: "holes (fill p e toks) = filter (\<lambda>q. q \<noteq> p) (holes toks)"
  by (induction toks rule: holes.induct) (simp_all add: fill_def)

lemma fill_well_formed:
  assumes "well_formed toks" and "brace_free e"
  shows "well_formed (fill p e toks)"
proof -
  have "distinct (holes (fill p e toks))"
    using assms(1) by (simp add: holes_fill well_formed_def)
  moreover have "list_all (\<lambda>t. brace_free (segment_text t)) (fill p e toks)"
    using assms by (auto simp: fill_def list_all_iff well_formed_def)
  ultimately show ?thesis by (simp add: well_formed_def)
qed

lemma path_value_brace_free: "path_value args p = Some e \<Longrightarrow> brace_free e"
  using encodeURIComponent_no_special
  by (auto simp: path_value_def brace_free_def split: option.splits)

text \<open>The path loop throws exactly when some value it finds cannot be printed.\<close>

lemma build_url_error:
  "fst (build_url args defs ps u m) = None
     \<longleftrightarrow> list_all (\<lambda>p. case lookup_arg args p of None \<Rightarrow> True | Some v \<Rightarrow> to_String v \<noteq> None) ps"
  by (induction ps arbitrary: u m) (auto split: option.splits)

lemma build_url_error_text: "fst (build_url args defs ps u m) = Some e \<Longrightarrow> e = type_error"
  by (induction ps arbitrary: u m) (auto split: option.splits)

text \<open>The loop over the path parameters fills the holes of those that have a value.\<close>

lemma build_url_render:
  assumes "well_formed toks" and "\<forall>p\<in>set ps. brace_free p"
    and "fst (build_url args defs ps (render toks) m) = None"
  shows "fst (snd (build_url args defs ps (render toks) m))
           = render (fold (\<lambda>p ts. case path_value args p of None \<Rightarrow> ts | Some e \<Rightarrow> fill p e ts) ps toks)"
  using assms
proof (induction ps arbitrary: toks m)
  case Nil
  then show ?case by simp
next
  case (Cons p ps)
  from Cons.prems(2) have bp: "brace_free p" and bps: "\<forall>p\<in>set ps. brace_free p" by auto
  show ?case
  proof (cases "lookup_arg args p")
    case None
    then have pv: "path_value args p = None" by (simp add: path_value_def)
    from None Cons.prems(3)
    have "fst (build_url args defs ps (render toks) (m @ [missing_of defs p ''path''])) = None" by simp
    from Cons.IH[OF Cons.prems(1) bps this] None pv show ?thesis by simp
  next
    case (Some v)
    with Cons.prems(3) obtain tx where tx: "to_String v = Some tx"
      by (cases "to_String v") auto
    let ?e = "encodeURIComponent tx"
    from Some tx have pv: "path_value args p = Some ?e" by (simp add: path_value_def)
    have wf: "well_formed (fill p ?e toks)"
      using Cons.prems(1) path_value_brace_free[OF pv] by (rule fill_well_formed)
    have step: "build_url args defs (p # ps) (render toks) m
                  = build_url args defs ps (render (fill p ?e toks)) m"
      using Some tx replace_first_render[OF Cons.prems(1) bp, of ?e] by simp
    with Cons.prems(3) have "fst (build_url args defs ps (render (fill p ?e toks)) m) = None" by simp
    from Cons.IH[OF wf bps this] step pv show ?thesis by simp
  qed
qed

lemma fold_fill:
  "fold (\<lambda>p ts. case path_value args p of None \<Rightarrow> ts | Some e \<Rightarrow> fill p e ts) ps toks
     = substituted args ps toks"
proof (induction ps arbitrary: toks)
  case Nil
  show ?case by (simp add: substituted_def map_idI split: segment.splits)
next
  case (Cons p ps)
  let ?f = "\<lambda>p ts. case path_value args p of None \<Rightarrow> ts | Some e \<Rightarrow> fill p e ts"
  have "fold ?f (p # ps) toks = fold ?f ps (?f p toks)" by simp
  also have "\<dots> = substituted args ps (?f p toks)" by (rule Cons.IH)
  also have "\<dots> = substituted args (p # ps) toks"
    by (auto simp: substituted_def fill_def split: segment.splits option.splits)
  finally show ?case .
qed

lemma substituted_well_formed:
  assumes "well_formed toks"
  shows "well_formed (substituted args ps toks)"
proof -
  have h: "holes (substituted args ps toks)
             = filter (\<lambda>q. \<not> (q \<in> set ps \<and> path_value args q \<noteq> None)) (holes toks)"
    by (induction toks rule: holes.induct) (auto simp: substituted_def split: option.splits)
  have "list_all (\<lambda>t. brace_free (segment_text t)) (substituted args ps toks)"
    using assms path_value_brace_free
    by (auto simp: substituted_def list_all_iff well_formed_def split: segment.splits option.splits)
  with h assms show ?thesis by (simp add: well_formed_def)
qed

lemma substituted_holes:
  "set (holes (substituted args ps toks))
     = {q \<in> set (holes toks). \<not> (q \<in> set ps \<and> path_value args q \<noteq> None)}"
proof -
  have "holes (substituted args ps toks)
             = filter (\<lambda>q. \<not> (q \<in> set ps \<and> path_value args q \<noteq> None)) (holes toks)"
    by (induction toks rule: holes.induct) (auto simp: substituted_def split: option.splits)
  then show ?thesis by simp
qed

text \<open>
  The text of a well-formed template contains the placeholder of a name only where the
  template has the hole.
\<close>

lemma str_includes_skip:
  assumes "CHR ''{'' \<notin> set x" and "str_includes (x @ r) (CHR ''{'' # pat)"
  shows "str_includes r (CHR ''{'' # pat)"
  using assms by (induction x) (auto simp: startsWith_Cons)

lemma no_hole_no_placeholder:
  assumes "well_formed toks" and "brace_free p" and "p \<notin> set (holes toks)"
  shows "\<not> str_includes (render toks) (''{'' @ p @ ''}'')"
  using assms(1,3)
proof (induction toks)
  case Nil
  show ?case by (simp add: render_def)
next
  case (Cons t toks)
  from Cons.prems have wf: "well_formed toks" and bt: "brace_free (segment_text t)"
    by (cases t; auto simp: well_formed_def)+
  from Cons.prems(2) have nh: "p \<notin> set (holes toks)" by (cases t) auto
  note ih = Cons.IH[OF wf nh]
  show ?case
  proof
    assume inc: "str_includes (render (t # toks)) (''{'' @ p @ ''}'')"
    show False
    proof (cases t)
      case (Lit x)
      with bt have "CHR ''{'' \<notin> set x" by (simp add: brace_free_def)
      from str_includes_skip[OF this, of "render toks" "p @ ''}''"] inc Lit ih
      show False by (simp add: render_Cons)
    next
      case (Hole q)
      with Cons.prems(2) have qp: "q \<noteq> p" by auto
      from bt Hole have bq: "brace_free q" by simp
      have ns: "\<not> startsWith (CHR ''{'' # q @ CHR ''}'' # render toks) (CHR ''{'' # p @ ''}'')"
        using name_prefix_eq[OF assms(2) bq, of "render toks"] qp by (auto simp: startsWith_Cons)
      from inc Hole ns have "str_includes ((q @ ''}'') @ render toks) (CHR ''{'' # p @ ''}'')"
        by (simp add: render_Cons)
      moreover have "CHR ''{'' \<notin> set (q @ ''}'')" using bq by (simp add: brace_free_def)
      ultimately have "str_includes (render toks) (CHR ''{'' # p @ ''}'')"
        using str_includes_skip by blast
      with ih show False by simp
    qed
  qed
qed

lemma restore_slash_render:
  "restore_slash op (render toks) = render toks
   \<or> restore_slash op (render toks) = render (toks @ [Lit ''/''])"
  by (simp add: restore_slash_def render_def)

lemma well_formed_slash: "well_formed toks \<Longrightarrow> well_formed (toks @ [Lit ''/''])"
proof -
  have h: "holes (toks @ [Lit ''/'']) = holes toks" by (induction toks rule: holes.induct) auto
  assume "well_formed toks"
  with h show ?thesis by (simp add: well_formed_def brace_free_def)
qed

lemma holes_slash: "holes (toks @ [Lit ''/'']) = holes toks"
  by (induction toks rule: holes.induct) auto

lemma restore_slash_no_placeholder:
  assumes "well_formed toks" and "brace_free p" and "p \<notin> set (holes toks)"
  shows "\<not> str_includes (restore_slash op (render toks)) (''{'' @ p @ ''}'')"
proof -
  have a: "\<not> str_includes (render toks) (''{'' @ p @ ''}'')"
    using assms by (rule no_hole_no_placeholder)
  have b: "\<not> str_includes (render (toks @ [Lit ''/''])) (''{'' @ p @ ''}'')"
    using well_formed_slash[OF assms(1)] assms(2) assms(3) holes_slash[of toks]
    by (intro no_hole_no_placeholder) simp_all
  from restore_slash_render[of op toks] a b show ?thesis by auto
qed

section \<open>Frame lemmas\<close>

lemma vendor_step_refl: "vendor_step s s"
proof -
  have "s = s\<lparr>amazonAccessToken := amazonAccessToken s, wire := wire s @ []\<rparr>" by simp
  moreover have "\<forall>e\<in>set ([]::event list). is_vendor_fetch e" by simp
  ultimately show ?thesis unfolding vendor_step_def by blast
qed

lemma vendor_step_trans:
  assumes "vendor_step s s1" and "vendor_step s1 s2"
  shows "vendor_step s s2"
proof -
  from assms(1) obtain evs1 a1 where
    s1: "s1 = s\<lparr>amazonAccessToken := a1, wire := wire s @ evs1\<rparr>" and v1: "\<forall>e\<in>set evs1. is_vendor_fetch e"
    unfolding vendor_step_def by blast
  from assms(2) obtain evs2 a2 where
    s2: "s2 = s1\<lparr>amazonAccessToken := a2, wire := wire s1 @ evs2\<rparr>" and v2: "\<forall>e\<in>set evs2. is_vendor_fetch e"
    unfolding vendor_step_def by blast
  have "s2 = s\<lparr>amazonAccessToken := a2, wire := wire s @ (evs1 @ evs2)\<rparr>" using s1 s2 by simp
  moreover have "\<forall>e\<in>set (evs1 @ evs2). is_vendor_fetch e" using v1 v2 by auto
  ultimately show ?thesis unfolding vendor_step_def by blast
qed

lemma getAmazonAccessToken_frame:
  assumes "getAmazonAccessToken up s = (r, s')"
  shows "vendor_step s s'"
proof (cases "truthy (amazonAccessToken s)")
  case True
  with assms have "s' = s" by (simp add: getAmazonAccessToken_def)
  then show ?thesis by (simp add: vendor_step_refl)
next
  case False
  with assms have "s' = s\<lparr>amazonAccessToken := amazonAccessToken s', wire := wire s @ [VendorTokenFetch (marketplaceId s)]\<rparr>"
    by (auto simp: getAmazonAccessToken_def Let_def split: http_reply.splits sum.splits)
  moreover have "\<forall>e\<in>set [VendorTokenFetch (marketplaceId s)]. is_vendor_fetch e" by simp
  ultimately show ?thesis unfolding vendor_step_def by blast
qed

lemma header_value_frame:
  assumes "header_value up args h s = (v, s')"
  shows "vendor_step s s'"
proof (cases "h = ''x-access-token'' \<and> \<not> truthy (lookup_arg args h) \<and> \<not> truthy (amazonAccessToken s)")
  case True
  with assms have "s' = snd (getAmazonAccessToken up s)"
    by (auto simp: header_value_def Let_def)
  then show ?thesis using getAmazonAccessToken_frame[of up s "fst (getAmazonAccessToken up s)" s'] by simp
next
  case False
  with assms have "s' = s" by (auto simp: header_value_def Let_def split: if_splits)
  then show ?thesis by (simp add: vendor_step_refl)
qed

lemma build_headers_frame:
  "build_headers up args defs hs acc missing s = (acc', missing', s') \<Longrightarrow> vendor_step s s'"
proof (induction hs arbitrary: acc missing s)
  case Nil
  then show ?case by (simp add: vendor_step_refl)
next
  case (Cons h rest)
  obtain v s1 where hv: "header_value up args h s = (v, s1)" by (cases "header_value up args h s")
  from Cons.prems hv obtain acc1 missing1 where
    rec: "build_headers up args defs rest acc1 missing1 s1 = (acc', missing', s')"
    by (cases v) auto
  from header_value_frame[OF hv] Cons.IH[OF rec] show ?case by (rule vendor_step_trans)
qed

lemma session_step_refl: "session_step s s"
proof -
  have "s = s\<lparr>apiToken := apiToken s, amazonAccessToken := amazonAccessToken s, wire := wire s @ []\<rparr>" by simp
  then show ?thesis unfolding session_step_def by blast
qed

lemma session_step_trans:
  assumes "session_step s s1" and "session_step s1 s2"
  shows "session_step s s2"
proof -
  from assms(1) obtain evs1 a1 t1 where
    s1: "s1 = s\<lparr>apiToken := t1, amazonAccessToken := a1, wire := wire s @ evs1\<rparr>"
    unfolding session_step_def by blast
  from assms(2) obtain evs2 a2 t2 where
    s2: "s2 = s1\<lparr>apiToken := t2, amazonAccessToken := a2, wire := wire s1 @ evs2\<rparr>"
    unfolding session_step_def by blast
  have "s2 = s\<lparr>apiToken := t2, amazonAccessToken := a2, wire := wire s @ (evs1 @ evs2)\<rparr>" using s1 s2 by simp
  then show ?thesis unfolding session_step_def by blast
qed

lemma vendor_step_session: "vendor_step s s' \<Longrightarrow> session_step s s'"
proof -
  assume "vendor_step s s'"
  then obtain evs a where "s' = s\<lparr>amazonAccessToken := a, wire := wire s @ evs\<rparr>"
    unfolding vendor_step_def by blast
  then have "s' = s\<lparr>apiToken := apiToken s, amazonAccessToken := a, wire := wire s @ evs\<rparr>" by simp
  then show ?thesis unfolding session_step_def by blast
qed

lemma authenticate_state:
  "snd (authenticate up s) =
     s\<lparr>apiToken := apiToken (snd (authenticate up s)),
       wire := wire s @ [AuthExchange (case proxyUserId s of None \<Rightarrow> None | Some u \<Rightarrow> if u = [] then None else Some u)]\<rparr>"
  by (simp add: authenticate_def Let_def split: http_reply.splits sum.splits)

lemma authenticate_session: "session_step s (snd (authenticate up s))"
proof -
  have "snd (authenticate up s) =
     s\<lparr>apiToken := apiToken (snd (authenticate up s)), amazonAccessToken := amazonAccessToken s,
       wire := wire s @ [AuthExchange (case proxyUserId s of None \<Rightarrow> None | Some u \<Rightarrow> if u = [] then None else Some u)]\<rparr>"
    using authenticate_state[of up s] by simp
  then show ?thesis unfolding session_step_def by blast
qed

lemma bearer_token_session: "session_step s (snd (bearer_token up args s))"
proof (cases "truthy (js_or (js_get args ''api_token'') (apiToken s))")
  case True
  then have "snd (bearer_token up args s) = s"
    by (simp add: bearer_token_def Let_def split: option.splits)
  then show ?thesis by (simp add: session_step_refl)
next
  case False
  then have "snd (bearer_token up args s) = snd (authenticate up s)"
    by (cases "authenticate up s") (auto simp: bearer_token_def Let_def split: option.splits sum.splits)
  then show ?thesis by (simp add: authenticate_session)
qed

lemma apply_bearer_session: "session_step s (snd (apply_bearer up args reg names hs s))"
proof (induction names)
  case Nil
  then show ?case by (simp add: session_step_refl)
next
  case (Cons n rest)
  have bt: "session_step s (snd (bearer_token up args s))" by (rule bearer_token_session)
  show ?case
    using Cons.IH bt
    by (cases "bearer_token up args s")
       (auto simp: session_step_refl split: option.splits bool.splits sum.splits)
qed

lemma apply_security_session: "session_step s (snd (apply_security up op args hs s))"
proof (cases "security op")
  case Nil
  then show ?thesis by (simp add: apply_security_def session_step_refl)
next
  case (Cons requirement others)
  have ab: "session_step s (snd (apply_bearer up args (registry s) requirement hs s))"
    by (rule apply_bearer_session)
  show ?thesis
    using Cons ab
    by (cases "apply_bearer up args (registry s) requirement hs s")
       (auto simp: apply_security_def session_step_refl split: sum.splits bool.splits)
qed

lemma send_request_state: "snd (send_request up rq s) = s\<lparr>wire := wire s @ [ApiRequest rq]\<rparr>"
  by (simp add: send_request_def Let_def split: http_reply.splits)

lemma send_request_session: "session_step s (snd (send_request up rq s))"
proof -
  have "snd (send_request up rq s) =
          s\<lparr>apiToken := apiToken s, amazonAccessToken := amazonAccessToken s, wire := wire s @ [ApiRequest rq]\<rparr>"
    by (simp add: send_request_state)
  then show ?thesis unfolding session_step_def by blast
qed

lemma execute_session: "session_step s (snd (execute up op urlPath qp data b hs s))"
  by (simp add: execute_def send_request_session session_step_refl)

text \<open>The two ways the build steps end: the path loop throws, or all four steps are done.\<close>

lemma collect_inputs_cases:
  obtains (throws) "collect_inputs up op args s = (Inl type_error, s)" and "\<not> printable_paths op args"
  | (built) urlPath qp hs data missingInputs s1 where
      "collect_inputs up op args s = (Inr (urlPath, qp, hs, data, missingInputs), s1)"
      and "printable_paths op args"
proof (cases "fst (build_url args (paramDefs_path op) (pathParams op) (op_path op) [])")
  case None
  then have p: "printable_paths op args" by (simp add: build_url_error printable_paths_def)
  from None have "\<exists>r. collect_inputs up op args s = (Inr r, snd (collect_inputs up op args s))"
    by (auto simp: collect_inputs_def split: prod.splits option.splits)
  then obtain urlPath qp hs data missingInputs where
    "collect_inputs up op args s = (Inr (urlPath, qp, hs, data, missingInputs), snd (collect_inputs up op args s))"
    by (metis prod.exhaust)
  then show ?thesis using p by (rule built)
next
  case (Some e)
  then have p: "\<not> printable_paths op args" using build_url_error[of args "paramDefs_path op" "pathParams op" "op_path op" "[]"]
    by (simp add: printable_paths_def)
  from Some have "e = type_error" by (rule build_url_error_text)
  with Some have "collect_inputs up op args s = (Inl type_error, s)"
    by (auto simp: collect_inputs_def split: prod.splits option.splits)
  then show ?thesis using p by (rule throws)
qed

lemma collect_inputs_frame: "vendor_step s (snd (collect_inputs up op args s))"
proof (cases "fst (build_url args (paramDefs_path op) (pathParams op) (op_path op) [])")
  case (Some e)
  then have "snd (collect_inputs up op args s) = s"
    by (auto simp: collect_inputs_def split: prod.splits option.splits)
  then show ?thesis by (simp add: vendor_step_refl)
next
  case None
  obtain urlPath0 missing1 where bu: "build_url args (paramDefs_path op) (pathParams op) (op_path op) [] = (None, urlPath0, missing1)"
    using None by (cases "build_url args (paramDefs_path op) (pathParams op) (op_path op) []") auto
  obtain qp missing2 where bq: "build_query args (paramDefs_query op) (queryParams op) [] missing1 = (qp, missing2)"
    by (cases "build_query args (paramDefs_query op) (queryParams op) [] missing1")
  obtain hs missing3 s1 where bh: "build_headers up args (paramDefs_header op) (headerParams op) [] missing2 s = (hs, missing3, s1)"
    by (cases "build_headers up args (paramDefs_header op) (headerParams op) [] missing2 s")
  have "snd (collect_inputs up op args s) = s1" by (simp add: collect_inputs_def bu bq bh)
  then show ?thesis using build_headers_frame[OF bh] by simp
qed

lemma dispatch_throws:
  "collect_inputs up op args s = (Inl e, s1) \<Longrightarrow> dispatch up op args s = (Inl e, s1)"
  by (simp add: dispatch_def)

lemma dispatch_session: "session_step s (snd (dispatch up op args s))"
proof (cases rule: collect_inputs_cases[of up op args s])
  case throws
  then show ?thesis by (simp add: dispatch_throws session_step_refl)
next
  case (built urlPath qp hs data missingInputs s1)
  note ci = built(1)
  have st1: "session_step s s1"
    using collect_inputs_frame[of s up op args] ci by (simp add: vendor_step_session)
  show ?thesis
  proof (cases "filter (\<lambda>mi. mi_name mi \<noteq> ''api_token'') missingInputs \<noteq> []")
    case True
    then have "snd (dispatch up op args s) = s1" by (simp add: dispatch_def ci Let_def)
    with st1 show ?thesis by simp
  next
    case False
    obtain u s2 where a: "apply_security up op args hs s1 = (u, s2)"
      by (cases "apply_security up op args hs s1")
    have st2: "session_step s s2"
      using st1 apply_security_session[of s1 up op args hs] a by (auto intro: session_step_trans)
    show ?thesis
    proof (cases u)
      case (Inl e)
      with False a have "snd (dispatch up op args s) = s2" by (simp add: dispatch_def ci Let_def)
      with st2 show ?thesis by simp
    next
      case (Inr bh)
      obtain b hs1 where "bh = (b, hs1)" by (cases bh)
      with Inr False a have "snd (dispatch up op args s) = snd (execute up op urlPath qp data b hs1 s2)"
        by (simp add: dispatch_def ci Let_def)
      then show ?thesis using st2 execute_session[of s2 up op urlPath qp data b hs1]
        by (auto intro: session_step_trans)
    qed
  qed
qed

lemma lookup_and_dispatch_session: "session_step s (snd (lookup_and_dispatch up name typedArgs s))"
proof (cases "map_of (operationMap s) name")
  case None
  then show ?thesis by (simp add: lookup_and_dispatch_def session_step_refl)
next
  case (Some op)
  then have "snd (lookup_and_dispatch up name typedArgs s) = snd (dispatch up op (argsOrEmpty typedArgs) s)"
    by (simp add: lookup_and_dispatch_def split: prod.splits sum.splits)
  then show ?thesis by (simp add: dispatch_session)
qed

lemma session_step_proxy: "session_step s s' \<Longrightarrow> proxyUserId s' = proxyUserId s"
  unfolding session_step_def by auto

section \<open>The requests a call sends\<close>

lemma vendor_step_wire:
  assumes "vendor_step s s'"
  obtains vf where "wire s' = wire s @ vf" and "\<forall>e\<in>set vf. is_vendor_fetch e"
  using assms unfolding vendor_step_def by auto

lemma session_step_fields:
  assumes "session_step s s'"
  shows "username s' = username s" and "password s' = password s" and "openApi s' = openApi s"
    and "operationMap s' = operationMap s" and "isReady s' = isReady s"
    and "proxyUserId s' = proxyUserId s" and "marketplaceId s' = marketplaceId s"
  using assms unfolding session_step_def by auto

lemma vendor_step_apiToken: "vendor_step s s' \<Longrightarrow> apiToken s' = apiToken s"
  unfolding vendor_step_def by auto

lemma execute_wire:
  "wire (snd (execute up op urlPath qp data b hs s)) =
     wire s @ (if b \<and> (username s = [] \<or> password s = []) then []
               else [ApiRequest (axios_config op urlPath qp data hs
                                   (if b then Some (username s, password s) else None))])"
  by (simp add: execute_def send_request_state)

lemma authenticate_auth_step: "auth_step s (snd (authenticate up s))"
  unfolding auth_step_def using authenticate_state[of up s] by blast

lemma bearer_token_auth_step: "auth_step s (snd (bearer_token up args s))"
proof (cases "truthy (js_or (js_get args ''api_token'') (apiToken s))")
  case True
  then have "snd (bearer_token up args s) = s"
    by (simp add: bearer_token_def Let_def split: option.splits)
  then show ?thesis by (simp add: auth_step_def)
next
  case False
  then have "snd (bearer_token up args s) = snd (authenticate up s)"
    by (cases "authenticate up s") (auto simp: bearer_token_def Let_def split: option.splits sum.splits)
  then show ?thesis by (simp add: authenticate_auth_step)
qed

lemma apply_bearer_auth_step: "auth_step s (snd (apply_bearer up args reg names hs s))"
proof (induction names)
  case Nil
  then show ?case by (simp add: auth_step_def)
next
  case (Cons n rest)
  have bt: "auth_step s (snd (bearer_token up args s))" by (rule bearer_token_auth_step)
  have r: "auth_step s s" by (simp add: auth_step_def)
  show ?case
    using Cons.IH bt r
    by (cases "bearer_token up args s") (auto split: option.splits bool.splits sum.splits)
qed

lemma apply_security_auth_step: "auth_step s (snd (apply_security up op args hs s))"
proof (cases "security op")
  case Nil
  then show ?thesis by (simp add: apply_security_def auth_step_def)
next
  case (Cons requirement others)
  have ab: "auth_step s (snd (apply_bearer up args (registry s) requirement hs s))"
    by (rule apply_bearer_auth_step)
  have r: "auth_step s s" by (simp add: auth_step_def)
  show ?thesis
    using Cons ab r
    by (cases "apply_bearer up args (registry s) requirement hs s")
       (auto simp: apply_security_def split: sum.splits bool.splits)
qed

lemma auth_step_wire:
  assumes "auth_step s s'"
  obtains au where "wire s' = wire s @ au" and "au = [] \<or> (\<exists>x. au = [AuthExchange x])"
  using assms unfolding auth_step_def by auto

lemma auth_step_fields:
  assumes "auth_step s s'"
  shows "username s' = username s" and "password s' = password s"
  using assms unfolding auth_step_def by auto

text \<open>The outcomes of dispatch, case by case.\<close>

lemma dispatch_cases:
  assumes ci: "collect_inputs up op args s = (Inr (urlPath, qp, hs, data, missingInputs), s1)"
  obtains
    (elicit) "filter (\<lambda>mi. mi_name mi \<noteq> ''api_token'') missingInputs \<noteq> []"
      "dispatch up op args s =
         (Inr (Elicitation (map to_required (filter (\<lambda>mi. mi_name mi \<noteq> ''api_token'') missingInputs))), s1)"
  | (denied) e s2 where "filter (\<lambda>mi. mi_name mi \<noteq> ''api_token'') missingInputs = []"
      "apply_security up op args hs s1 = (Inl e, s2)"
      "dispatch up op args s = (Inl e, s2)"
  | (run) b hs1 s2 where "filter (\<lambda>mi. mi_name mi \<noteq> ''api_token'') missingInputs = []"
      "apply_security up op args hs s1 = (Inr (b, hs1), s2)"
      "dispatch up op args s = execute up op urlPath qp data b hs1 s2"
proof (cases "filter (\<lambda>mi. mi_name mi \<noteq> ''api_token'') missingInputs \<noteq> []")
  case True
  then show ?thesis using elicit by (simp add: dispatch_def ci Let_def)
next
  case False
  obtain u s2 where a: "apply_security up op args hs s1 = (u, s2)"
    by (cases "apply_security up op args hs s1")
  show ?thesis
  proof (cases u)
    case (Inl e)
    with False a show ?thesis using denied[of e s2] by (simp add: dispatch_def ci Let_def)
  next
    case (Inr bh)
    obtain b hs1 where "bh = (b, hs1)" by (cases bh)
    with Inr False a show ?thesis using run[of b hs1 s2] by (simp add: dispatch_def ci Let_def)
  qed
qed

lemma new_events_append: "wire s' = wire s @ evs \<Longrightarrow> new_events s s' = evs"
  by (simp add: new_events_def)

text \<open>Every request a dispatch sends is the configuration built from the collected inputs.\<close>

lemma dispatch_request:
  assumes ci: "collect_inputs up op args s = (Inr (urlPath, qp, hs, data, missingInputs), s1)"
    and rq: "ApiRequest rq \<in> set (new_events s (snd (dispatch up op args s)))"
  shows "\<exists>b hs1 s2. apply_security up op args hs s1 = (Inr (b, hs1), s2)
           \<and> filter (\<lambda>mi. mi_name mi \<noteq> ''api_token'') missingInputs = []
           \<and> rq = axios_config op urlPath qp data hs1 (if b then Some (username s, password s) else None)"
proof -
  from collect_inputs_frame[of s up op args] ci have vs: "vendor_step s s1" by simp
  then obtain vf where w1: "wire s1 = wire s @ vf" and vf: "\<forall>e\<in>set vf. is_vendor_fetch e"
    by (rule vendor_step_wire)
  have u1: "username s1 = username s" "password s1 = password s"
    using session_step_fields[OF vendor_step_session[OF vs]] by simp_all
  from ci show ?thesis
  proof (cases rule: dispatch_cases)
    case elicit
    then have "new_events s (snd (dispatch up op args s)) = vf" using w1 by (simp add: new_events_append)
    with rq vf show ?thesis by auto
  next
    case (denied e s2)
    from apply_security_auth_step[of s1 up op args hs] denied(2) have "auth_step s1 s2" by simp
    then obtain au where "wire s2 = wire s1 @ au" and au: "au = [] \<or> (\<exists>x. au = [AuthExchange x])"
      by (rule auth_step_wire)
    then have "new_events s (snd (dispatch up op args s)) = vf @ au"
      using w1 denied(3) by (simp add: new_events_append)
    with rq vf au show ?thesis by auto
  next
    case (run b hs1 s2)
    from apply_security_auth_step[of s1 up op args hs] run(2) have as: "auth_step s1 s2" by simp
    then obtain au where w2: "wire s2 = wire s1 @ au" and au: "au = [] \<or> (\<exists>x. au = [AuthExchange x])"
      by (rule auth_step_wire)
    have u2: "username s2 = username s" "password s2 = password s"
      using auth_step_fields[OF as] u1 by simp_all
    let ?last = "(if b \<and> (username s = [] \<or> password s = []) then []
               else [ApiRequest (axios_config op urlPath qp data hs1
                                   (if b then Some (username s, password s) else None))])"
    have "wire (snd (dispatch up op args s)) = wire s @ (vf @ au @ ?last)"
      using run(3) execute_wire[of up op urlPath qp data b hs1 s2] w1 w2 u2 by simp
    then have "new_events s (snd (dispatch up op args s)) = vf @ au @ ?last"
      by (rule new_events_append)
    with rq vf au have "rq = axios_config op urlPath qp data hs1 (if b then Some (username s, password s) else None)"
      by (auto split: if_splits)
    with run show ?thesis by blast
  qed
qed

lemma with_proxy_fields:
  "wire (with_proxy typedArgs s) = wire s" "operationMap (with_proxy typedArgs s) = operationMap s"
  "username (with_proxy typedArgs s) = username s" "password (with_proxy typedArgs s) = password s"
  "openApi (with_proxy typedArgs s) = openApi s" "apiToken (with_proxy typedArgs s) = apiToken s"
  "amazonAccessToken (with_proxy typedArgs s) = amazonAccessToken s"
  "registry (with_proxy typedArgs s) = registry s"
  by (simp_all add: with_proxy_def setProxyUserId_def registry_def split: option.splits)

lemma new_events_with_proxy: "new_events (with_proxy typedArgs s) s' = new_events s s'"
  by (simp add: new_events_def with_proxy_fields)

lemma call_tool_known:
  assumes "isReady s" and "map_of (operationMap s) name = Some op"
    and "proxy_user_arg typedArgs = None \<or> name \<noteq> ''getProxyUsers''"
  shows "call_tool up name typedArgs s =
           (case dispatch up op (argsOrEmpty typedArgs) (with_proxy typedArgs s) of
              (Inl e, s') \<Rightarrow> (Returned (ToolError e), s')
            | (Inr r, s') \<Rightarrow>
                (case render_response name r of
                   Inl e \<Rightarrow> (Returned (ToolError e), s')
                 | Inr r' \<Rightarrow> (Returned r', s')))"
  using assms
  by (auto simp: call_tool_def lookup_and_dispatch_def with_proxy_def setProxyUserId_def catch_block_def
           split: option.splits prod.splits sum.splits)

lemma call_tool_known_state:
  assumes "isReady s" and "map_of (operationMap s) name = Some op"
    and "proxy_user_arg typedArgs = None \<or> name \<noteq> ''getProxyUsers''"
  shows "snd (call_tool up name typedArgs s) = snd (dispatch up op (argsOrEmpty typedArgs) (with_proxy typedArgs s))"
  using call_tool_known[OF assms, of up] by (simp split: prod.splits sum.splits)

text \<open>Rendering changes nothing but the answer to a request that has been sent.\<close>

lemma render_response_other: "\<forall>d. r \<noteq> ToolSuccess d \<Longrightarrow> render_response name r = Inr r"
  by (cases r) (simp_all add: render_response_def)

lemma render_response_result:
  "render_response name r = Inr r' \<Longrightarrow> r' = r"
  by (cases r) (auto simp: render_response_def split: if_splits)

lemma render_response_error:
  "render_response name r = Inl e \<Longrightarrow> \<exists>d. r = ToolSuccess d"
  by (cases r) (auto simp: render_response_def split: if_splits)

lemma call_tool_elicit:
  assumes "isReady s" and "map_of (operationMap s) name = Some op"
    and "proxy_user_arg typedArgs = None \<or> name \<noteq> ''getProxyUsers''"
    and "dispatch up op (argsOrEmpty typedArgs) (with_proxy typedArgs s) = (Inr (Elicitation reqs), s1)"
  shows "call_tool up name typedArgs s = (Returned (Elicitation reqs), s1)"
  using call_tool_known[OF assms(1-3), of up] assms(4) by (simp add: render_response_def)

lemma call_tool_error:
  assumes "isReady s" and "map_of (operationMap s) name = Some op"
    and "proxy_user_arg typedArgs = None \<or> name \<noteq> ''getProxyUsers''"
    and "dispatch up op (argsOrEmpty typedArgs) (with_proxy typedArgs s) = (Inl e, s1)"
  shows "call_tool up name typedArgs s = (Returned (ToolError e), s1)"
  using call_tool_known[OF assms(1-3), of up] assms(4) by simp

lemma call_tool_elicited:
  assumes "isReady s" and "map_of (operationMap s) name = Some op"
    and "proxy_user_arg typedArgs = None \<or> name \<noteq> ''getProxyUsers''"
    and "fst (call_tool up name typedArgs s) = Returned (Elicitation reqs)"
  shows "fst (dispatch up op (argsOrEmpty typedArgs) (with_proxy typedArgs s)) = Inr (Elicitation reqs)"
proof -
  obtain u s1 where d: "dispatch up op (argsOrEmpty typedArgs) (with_proxy typedArgs s) = (u, s1)"
    by (metis prod.exhaust)
  show ?thesis
  proof (cases u)
    case (Inl e)
    with d call_tool_error[OF assms(1-3), of up e s1] assms(4) show ?thesis by simp
  next
    case (Inr r)
    show ?thesis
    proof (cases "render_response name r")
      case (Inl e)
      with Inr d call_tool_known[OF assms(1-3), of up] assms(4) show ?thesis by simp
    next
      case (Inr r')
      then have "r' = r" by (rule render_response_result)
      with Inr \<open>u = Inr r\<close> d call_tool_known[OF assms(1-3), of up] assms(4) show ?thesis by simp
    qed
  qed
qed

text \<open>A request sent by a call is one sent by the dispatch of a known operation.\<close>

lemma call_tool_request:
  assumes "ApiRequest rq \<in> set (new_events s (snd (call_tool up name typedArgs s)))"
    and "map_of (operationMap s) name = Some op"
  shows "ApiRequest rq \<in> set (new_events (with_proxy typedArgs s)
                                (snd (dispatch up op (argsOrEmpty typedArgs) (with_proxy typedArgs s))))"
proof (cases "isReady s \<and> (proxy_user_arg typedArgs = None \<or> name \<noteq> ''getProxyUsers'')")
  case True
  then show ?thesis
    using assms call_tool_known_state[of s name op typedArgs up] by (simp add: new_events_with_proxy)
next
  case False
  then have "wire (snd (call_tool up name typedArgs s)) = wire s"
    by (auto simp: call_tool_def setProxyUserId_def split: option.splits)
  then have "new_events s (snd (call_tool up name typedArgs s)) = []" by (simp add: new_events_def)
  with assms(1) show ?thesis by simp
qed

lemma collect_inputs_url:
  assumes "collect_inputs up op args s = (Inr (urlPath, qp, hs, data, missingInputs), s1)"
  shows "urlPath =
     restore_slash op (fst (snd (build_url args (paramDefs_path op) (pathParams op) (op_path op) [])))"
  using assms by (auto simp: collect_inputs_def split: prod.splits option.splits)

lemma restore_slash_ends: "pathHasTrailingSlash op \<Longrightarrow> endsWith (restore_slash op u) ''/''"
  by (auto simp: restore_slash_def endsWith_def)

lemma endsWith_nonempty: "endsWith s ''/'' \<Longrightarrow> s \<noteq> []"
  by (auto simp: endsWith_def)

lemma compile_operation_slash:
  assumes "endsWith pathKey ''/''
           \<or> (pathKey = ''/account'' \<and> t_name (fst (compile_operation doc pathKey item m od)) = ''getProxyUsers'')"
  shows "pathHasTrailingSlash (snd (compile_operation doc pathKey item m od))"
  using assms by (auto simp: compile_operation_def Let_def dest: endsWith_nonempty)

lemma compile_operation_path: "op_path (snd (compile_operation doc pathKey item m od)) = pathKey"
  by (simp add: compile_operation_def Let_def)

section \<open>Which authentication a requirement selects\<close>

lemma startsWith_shorter:
  assumes "startsWith s (p @ q)"
  shows "startsWith s p"
proof -
  from assms have "take (length p + length q) s = p @ q" by (simp add: startsWith_def)
  then have "take (length p) (take (length p + length q) s) = take (length p) (p @ q)" by simp
  then show ?thesis by (simp add: startsWith_def min_def)
qed

lemma str_includes_shorter: "str_includes s (p @ q) \<Longrightarrow> str_includes s p"
proof (induction s)
  case Nil
  then show ?case by simp
next
  case (Cons c cs)
  then show ?case using startsWith_shorter[of "c # cs" p q] by auto
qed

lemma includes_basic_auth: "str_includes s ''basic_auth'' \<Longrightarrow> str_includes s ''basic''"
  using str_includes_shorter[of s "''basic''" "''_auth''"] by simp

lemma is_http_scheme_throws:
  "is_http_scheme scheme k = None \<longleftrightarrow> is_http_scheme scheme k' = None"
  by (auto simp: is_http_scheme_def split: option.splits)

text \<open>
  A requirement that names a scheme standing for Basic authentication selects it, unless
  examining a scheme throws; one whose schemes can all be printed selects it exactly then.
\<close>

lemma use_basic_auth_found:
  assumes "\<exists>n\<in>set requirement. names_basic_scheme reg n"
  shows "use_basic_auth reg requirement \<noteq> Inr False"
  using assms
proof (induction requirement)
  case Nil
  then show ?case by simp
next
  case (Cons n rest)
  show ?case
  proof (cases "names_basic_scheme reg n")
    case True
    then show ?thesis
      by (auto simp: names_basic_scheme_def split: option.splits bool.splits)
  next
    case False
    with Cons.prems have "\<exists>n\<in>set rest. names_basic_scheme reg n" by simp
    with Cons.IH have "use_basic_auth reg rest \<noteq> Inr False" by simp
    then show ?thesis by (auto split: option.splits bool.splits)
  qed
qed

lemma use_basic_auth_printable:
  assumes "printable_schemes reg requirement"
  shows "use_basic_auth reg requirement = Inr (\<exists>n\<in>set requirement. names_basic_scheme reg n)"
  using assms
proof (induction requirement)
  case Nil
  then show ?case by simp
next
  case (Cons n rest)
  from Cons.prems have p: "printable_schemes reg rest" by (simp add: printable_schemes_def)
  note ih = Cons.IH[OF p]
  show ?case
  proof (cases "names_basic_scheme reg n")
    case True
    then have "use_basic_auth reg (n # rest) = Inr True"
      using Cons.prems
      by (auto simp: names_basic_scheme_def printable_schemes_def split: option.splits bool.splits)
    with True show ?thesis by simp
  next
    case False
    then have "use_basic_auth reg (n # rest) = use_basic_auth reg rest"
      using Cons.prems
      by (auto simp: names_basic_scheme_def printable_schemes_def
               split: option.splits bool.splits dest: includes_basic_auth)
    with False ih show ?thesis by simp
  qed
qed

lemma map_of_obj_delete: "map_of (obj_delete kvs k) k = None"
  by (induction kvs) (auto simp: obj_delete_def)

lemma session_step_registry: "session_step s s' \<Longrightarrow> registry s' = registry s"
  unfolding session_step_def registry_def by auto

section \<open>The bearer token\<close>

lemma map_of_obj_set: "map_of (obj_set kvs k v) k = Some v"
  by (induction kvs) auto

lemma js_or_falsy: "\<not> truthy (js_or a c) \<Longrightarrow> \<not> truthy a \<and> \<not> truthy c"
  by (auto simp: js_or_def split: if_splits)

lemma set_prop_plain: "k \<noteq> ''__proto__'' \<Longrightarrow> set_prop kvs k v = obj_set kvs k v"
  by (simp add: set_prop_def)

lemma map_of_set_prop: "k \<noteq> ''__proto__'' \<Longrightarrow> map_of (set_prop kvs k v) k = Some v"
  by (simp add: set_prop_def map_of_obj_set)

text \<open>The token is the argument when that is truthy, else the cached token when that is.\<close>

lemma bearer_token_arg:
  assumes "js_get args ''api_token'' = Some a" and "truthy (Some a)"
  shows "bearer_token up args s = (Inr a, s)"
  using assms by (simp add: bearer_token_def Let_def js_or_def)

lemma bearer_token_cached_value:
  assumes "\<not> truthy (js_get args ''api_token'')" and "apiToken s = Some c" and "truthy (Some c)"
  shows "bearer_token up args s = (Inr c, s)"
  using assms by (simp add: bearer_token_def Let_def js_or_def)

lemma bearer_token_ready:
  assumes "truthy (js_or (js_get args ''api_token'') (apiToken s))"
  shows "\<exists>t. js_or (js_get args ''api_token'') (apiToken s) = Some t \<and> bearer_token up args s = (Inr t, s)"
proof -
  from assms obtain t where t: "js_or (js_get args ''api_token'') (apiToken s) = Some t"
    by (cases "js_or (js_get args ''api_token'') (apiToken s)") auto
  with assms have "bearer_token up args s = (Inr t, s)"
    by (simp add: bearer_token_def Let_def)
  with t show ?thesis by blast
qed

lemma bearer_token_exchange:
  assumes "\<not> truthy (js_get args ''api_token'')" and "\<not> truthy (apiToken s)"
  shows "bearer_token up args s =
     (case token_endpoint up (wire s) of
        HttpError e \<Rightarrow> (Inl (''Authentication failed: '' @ e), s\<lparr>wire := wire s @ [AuthExchange (x_proxy s)]\<rparr>)
      | HttpOk d \<Rightarrow>
          (case read_prop d ''token'' of
             Inl e \<Rightarrow> (Inl (''Authentication failed: '' @ e), s\<lparr>wire := wire s @ [AuthExchange (x_proxy s)]\<rparr>)
           | Inr None \<Rightarrow> (Inl ''Missing bearer token (api_token)'',
                         s\<lparr>wire := wire s @ [AuthExchange (x_proxy s)], apiToken := None\<rparr>)
           | Inr (Some t) \<Rightarrow>
               (if truthy (Some t) then Inr t else Inl ''Missing bearer token (api_token)'',
                s\<lparr>wire := wire s @ [AuthExchange (x_proxy s)], apiToken := Some t\<rparr>)))"
proof -
  from assms(1) have j: "js_or (js_get args ''api_token'') c = c" for c by (simp add: js_or_def)
  show ?thesis
    using assms
    by (simp add: bearer_token_def authenticate_def Let_def j x_proxy_def
             split: http_reply.splits sum.splits option.splits)
qed

text \<open>
  With a registered HTTP \<open>bearer\<close> scheme in the requirement, among schemes that can be
  printed, the second loop resolves the token and sets the header from its text.
\<close>

lemma apply_bearer_found:
  assumes "printable_schemes reg names" and "\<exists>n\<in>set names. names_bearer_scheme reg n"
  shows "apply_bearer up args reg names hs s =
     (case bearer_token up args s of
        (Inl e, s1) \<Rightarrow> (Inl e, s1)
      | (Inr t, s1) \<Rightarrow>
          (case to_String t of
             None \<Rightarrow> (Inl type_error, s1)
           | Some tx \<Rightarrow> (Inr (obj_set hs ''Authorization'' (JStr (''Bearer '' @ tx))), s1)))"
  using assms
proof (induction names)
  case Nil
  then show ?case by simp
next
  case (Cons n rest)
  from Cons.prems(1) have p: "printable_schemes reg rest" by (simp add: printable_schemes_def)
  show ?case
  proof (cases "names_bearer_scheme reg n")
    case True
    then show ?thesis
      by (auto simp: names_bearer_scheme_def set_prop_def split: option.splits prod.splits sum.splits)
  next
    case False
    then have "apply_bearer up args reg (n # rest) hs s = apply_bearer up args reg rest hs s"
      using Cons.prems(1) is_http_scheme_throws[of _ "''bearer''" "''basic''"]
      by (auto simp: names_bearer_scheme_def printable_schemes_def split: option.splits bool.splits)
    moreover from False Cons.prems have "\<exists>n\<in>set rest. names_bearer_scheme reg n" by simp
    ultimately show ?thesis using Cons.IH[OF p] by simp
  qed
qed

lemma apply_security_bearer:
  assumes "security op = requirement # others"
    and "printable_schemes (registry s) requirement"
    and "\<not> (\<exists>n\<in>set requirement. names_basic_scheme (registry s) n)"
    and "\<exists>n\<in>set requirement. names_bearer_scheme (registry s) n"
  shows "apply_security up op args hs s =
     (case bearer_token up args s of
        (Inl e, s1) \<Rightarrow> (Inl e, s1)
      | (Inr t, s1) \<Rightarrow>
          (case to_String t of
             None \<Rightarrow> (Inl type_error, s1)
           | Some tx \<Rightarrow> (Inr (False, obj_set hs ''Authorization'' (JStr (''Bearer '' @ tx))), s1)))"
proof -
  have "use_basic_auth (registry s) requirement = Inr False"
    using use_basic_auth_printable[OF assms(2)] assms(3) by simp
  then show ?thesis
    using assms(1) apply_bearer_found[OF assms(2) assms(4), of up args hs s]
    by (simp add: apply_security_def split: prod.splits sum.splits option.splits)
qed

text \<open>With a cached token no call exchanges credentials.\<close>

lemma bearer_token_cached: "truthy (apiToken s) \<Longrightarrow> snd (bearer_token up args s) = s"
proof -
  assume "truthy (apiToken s)"
  then have "truthy (js_or (js_get args ''api_token'') (apiToken s))" by (simp add: js_or_def)
  from bearer_token_ready[OF this, of up] show ?thesis by auto
qed

lemma apply_bearer_cached: "truthy (apiToken s) \<Longrightarrow> snd (apply_bearer up args reg names hs s) = s"
proof (induction names)
  case Nil
  then show ?case by simp
next
  case (Cons n rest)
  from bearer_token_cached[OF Cons.prems, of up args] Cons.IH[OF Cons.prems]
  show ?case
    by (cases "bearer_token up args s") (auto split: option.splits bool.splits sum.splits)
qed

lemma apply_security_cached: "truthy (apiToken s) \<Longrightarrow> snd (apply_security up op args hs s) = s"
proof -
  assume t: "truthy (apiToken s)"
  show ?thesis
  proof (cases "security op")
    case Nil
    then show ?thesis by (simp add: apply_security_def)
  next
    case (Cons requirement others)
    then show ?thesis
      using apply_bearer_cached[OF t, of up args "registry s" requirement hs]
      by (cases "apply_bearer up args (registry s) requirement hs s")
         (auto simp: apply_security_def split: sum.splits bool.splits)
  qed
qed

lemma dispatch_cached_no_exchange:
  assumes "truthy (apiToken s)"
  shows "AuthExchange x \<notin> set (new_events s (snd (dispatch up op args s)))"
proof (cases rule: collect_inputs_cases[of up op args s])
  case throws
  then show ?thesis by (simp add: dispatch_throws new_events_def)
next
  case (built urlPath qp hs data missingInputs s1)
  note ci = built(1)
  from collect_inputs_frame[of s up op args] ci have vs: "vendor_step s s1" by simp
  then obtain vf where w1: "wire s1 = wire s @ vf" and vf: "\<forall>e\<in>set vf. is_vendor_fetch e"
    by (rule vendor_step_wire)
  have t1: "truthy (apiToken s1)" using assms vendor_step_apiToken[OF vs] by simp
  from ci show ?thesis
  proof (cases rule: dispatch_cases)
    case elicit
    then have "new_events s (snd (dispatch up op args s)) = vf" using w1 by (simp add: new_events_append)
    with vf show ?thesis by auto
  next
    case (denied e s2)
    then have "s2 = s1" using apply_security_cached[OF t1, of up op args hs] by simp
    then have "new_events s (snd (dispatch up op args s)) = vf" using w1 denied(3) by (simp add: new_events_append)
    with vf show ?thesis by auto
  next
    case (run b hs1 s2)
    then have "s2 = s1" using apply_security_cached[OF t1, of up op args hs] by simp
    then have "\<exists>last. wire (snd (dispatch up op args s)) = wire s @ (vf @ last) \<and> (\<forall>e\<in>set last. \<not> is_auth_exchange e)"
      using run(3) execute_wire[of up op urlPath qp data b hs1 s1] w1 by simp
    then obtain last where "new_events s (snd (dispatch up op args s)) = vf @ last"
      and "\<forall>e\<in>set last. \<not> is_auth_exchange e" using new_events_append by blast
    with vf show ?thesis by auto
  qed
qed

lemma call_tool_cached_no_exchange:
  assumes "truthy (apiToken s)"
  shows "AuthExchange x \<notin> set (new_events s (snd (call_tool up name typedArgs s)))"
proof (cases "isReady s \<and> (proxy_user_arg typedArgs = None \<or> name \<noteq> ''getProxyUsers'')
              \<and> map_of (operationMap s) name \<noteq> None")
  case True
  then obtain op where op: "map_of (operationMap s) name = Some op" by auto
  have "truthy (apiToken (with_proxy typedArgs s))" using assms by (simp add: with_proxy_fields)
  from dispatch_cached_no_exchange[OF this, of x up op "argsOrEmpty typedArgs"]
  show ?thesis
    using True op call_tool_known_state[of s name op typedArgs up] by (simp add: new_events_with_proxy)
next
  case False
  then have "wire (snd (call_tool up name typedArgs s)) = wire s"
    by (auto simp: call_tool_def lookup_and_dispatch_def catch_block_def setProxyUserId_def split: option.splits)
  then show ?thesis by (simp add: new_events_def)
qed

lemma dispatch_not_elicit:
  assumes "collect_inputs up op args s = (Inr (urlPath, qp, hs, data, missingInputs), s1)"
    and "filter (\<lambda>mi. mi_name mi \<noteq> ''api_token'') missingInputs = []"
  shows "dispatch up op args s =
           (case apply_security up op args hs s1 of
              (Inl e, s2) \<Rightarrow> (Inl e, s2)
            | (Inr (b, hs1), s2) \<Rightarrow> execute up op urlPath qp data b hs1 s2)"
  using assms by (simp add: dispatch_def Let_def)

lemma dispatch_elicit:
  assumes "collect_inputs up op args s = (Inr (urlPath, qp, hs, data, missingInputs), s1)"
    and "filter (\<lambda>mi. mi_name mi \<noteq> ''api_token'') missingInputs \<noteq> []"
  shows "dispatch up op args s =
           (Inr (Elicitation (map to_required (filter (\<lambda>mi. mi_name mi \<noteq> ''api_token'') missingInputs))), s1)"
  using assms by (simp add: dispatch_def Let_def)

lemma send_request_result:
  "send_request up rq s =
     (case api_endpoint up (wire s) rq of HttpError e \<Rightarrow> Inl e | HttpOk d \<Rightarrow> Inr (ToolSuccess d),
      s\<lparr>wire := wire s @ [ApiRequest rq]\<rparr>)"
  by (simp add: send_request_def Let_def split: http_reply.splits)

section \<open>The inputs found missing\<close>

lemma build_url_missing:
  assumes "fst (build_url args defs ps urlPath missing) = None"
  shows "snd (snd (build_url args defs ps urlPath missing)) =
     missing @ map (\<lambda>p. missing_of defs p ''path'') (filter (\<lambda>p. lookup_arg args p = None) ps)"
  using assms by (induction ps arbitrary: urlPath missing) (auto split: option.splits)

lemma build_query_missing:
  "snd (build_query args defs qs qp missing) =
     missing @ map (\<lambda>q. missing_of defs q ''query'')
                   (filter (\<lambda>q. lookup_arg args q = None \<and> def_required defs q) qs)"
  by (induction qs arbitrary: qp missing) (auto split: option.splits)

lemma header_value_plain: "h \<noteq> ''x-access-token'' \<Longrightarrow> header_value up args h s = (lookup_arg args h, s)"
  by (simp add: header_value_def)

lemma header_value_cached:
  "truthy (amazonAccessToken s) \<Longrightarrow> snd (header_value up args h s) = s"
  by (simp add: header_value_def Let_def)

text \<open>
  A header has no value when the caller gave none; \<open>x-access-token\<close> has none only when,
  in addition, no vendor token is held after the fetch, which needs a call that began
  without one.
\<close>

lemma header_value_none:
  assumes "header_value up args h s = (None, s1)"
  shows "(h = ''x-access-token'' \<and> \<not> truthy (lookup_arg args h) \<and> \<not> truthy (amazonAccessToken s)
            \<and> amazonAccessToken s1 = None)
         \<or> (h \<noteq> ''x-access-token'' \<and> lookup_arg args h = None)"
proof (cases "h = ''x-access-token''")
  case False
  with assms show ?thesis by (simp add: header_value_plain)
next
  case True
  show ?thesis
  proof (cases "truthy (lookup_arg args h)")
    case t: True
    then have "header_value up args h s = (lookup_arg args h, s)" by (simp add: header_value_def)
    with assms have "lookup_arg args h = None" by simp
    with t show ?thesis by simp
  next
    case f: False
    show ?thesis
    proof (cases "truthy (amazonAccessToken s)")
      case c: True
      with True f have "header_value up args h s = (amazonAccessToken s, s)"
        by (simp add: header_value_def Let_def)
      with assms have "amazonAccessToken s = None" by (metis Pair_inject)
      with c show ?thesis by simp
    next
      case c: False
      with True f have "header_value up args h s
          = (amazonAccessToken (snd (getAmazonAccessToken up s)), snd (getAmazonAccessToken up s))"
        by (simp add: header_value_def Let_def)
      with assms have "amazonAccessToken s1 = None" by (metis Pair_inject)
      with True f c show ?thesis by simp
    qed
  qed
qed

lemma header_value_untruthy:
  assumes "header_value up args h s = (v, s1)" and "\<not> truthy (amazonAccessToken s1)"
  shows "\<not> truthy (amazonAccessToken s)"
proof
  assume "truthy (amazonAccessToken s)"
  from header_value_cached[OF this, of up args h] assms(1) have "s1 = s" by simp
  with assms(2) \<open>truthy (amazonAccessToken s)\<close> show False by simp
qed

text \<open>What the header loop adds to the list of missing inputs.\<close>

lemma build_headers_missing:
  "\<exists>hm. fst (snd (build_headers up args defs hs acc missing s)) = missing @ hm
      \<and> (\<forall>h\<in>set hs. must_miss args h \<and> def_required defs h \<longrightarrow> missing_of defs h ''header'' \<in> set hm)
      \<and> (\<forall>m\<in>set hm. \<exists>h\<in>set hs. m = missing_of defs h ''header'' \<and> def_required defs h \<and> may_miss args s h)"
proof (induction hs arbitrary: acc missing s)
  case Nil
  then show ?case by simp
next
  case (Cons h rest)
  obtain v s1 where hv: "header_value up args h s = (v, s1)" by (cases "header_value up args h s")
  have mono: "may_miss args s h'" if "may_miss args s1 h'" for h'
    using that header_value_untruthy[OF hv] unfolding may_miss_def by blast
  show ?case
  proof (cases v)
    case None
    let ?m = "(if def_required defs h then missing @ [missing_of defs h ''header''] else missing)"
    let ?one = "(if def_required defs h then [missing_of defs h ''header''] else [])"
    from None hv have eq: "build_headers up args defs (h # rest) acc missing s = build_headers up args defs rest acc ?m s1"
      by simp
    from Cons.IH[of acc ?m s1] obtain hm where
      r: "fst (snd (build_headers up args defs rest acc ?m s1)) = ?m @ hm"
      and lo: "\<forall>h\<in>set rest. must_miss args h \<and> def_required defs h \<longrightarrow> missing_of defs h ''header'' \<in> set hm"
      and hi: "\<forall>m\<in>set hm. \<exists>h\<in>set rest. m = missing_of defs h ''header'' \<and> def_required defs h \<and> may_miss args s1 h"
      by blast
    from header_value_none[of up args h s s1] hv None
    have hn: "may_miss args s h" unfolding may_miss_def by blast
    have a: "fst (snd (build_headers up args defs (h # rest) acc missing s)) = missing @ (?one @ hm)"
      using eq r by simp
    have b: "\<forall>h'\<in>set (h # rest). must_miss args h' \<and> def_required defs h'
               \<longrightarrow> missing_of defs h' ''header'' \<in> set (?one @ hm)"
      using lo by simp
    have c: "\<forall>m\<in>set (?one @ hm). \<exists>h'\<in>set (h # rest).
               m = missing_of defs h' ''header'' \<and> def_required defs h' \<and> may_miss args s h'"
    proof
      fix m
      assume "m \<in> set (?one @ hm)"
      then consider "m = missing_of defs h ''header''" "def_required defs h" | "m \<in> set hm"
        by (auto split: if_splits)
      then show "\<exists>h'\<in>set (h # rest).
               m = missing_of defs h' ''header'' \<and> def_required defs h' \<and> may_miss args s h'"
      proof cases
        case 1
        with hn show ?thesis by simp
      next
        case 2
        with hi obtain h' where "h' \<in> set rest" "m = missing_of defs h' ''header''"
          "def_required defs h'" "may_miss args s1 h'" by blast
        with mono show ?thesis by auto
      qed
    qed
    from a b c show ?thesis by blast
  next
    case (Some val)
    from Some hv have eq: "build_headers up args defs (h # rest) acc missing s
                             = build_headers up args defs rest (set_prop acc h val) missing s1"
      by simp
    from Cons.IH[of "set_prop acc h val" missing s1] obtain hm where
      r: "fst (snd (build_headers up args defs rest (set_prop acc h val) missing s1)) = missing @ hm"
      and lo: "\<forall>h\<in>set rest. must_miss args h \<and> def_required defs h \<longrightarrow> missing_of defs h ''header'' \<in> set hm"
      and hi: "\<forall>m\<in>set hm. \<exists>h\<in>set rest. m = missing_of defs h ''header'' \<and> def_required defs h \<and> may_miss args s1 h"
      by blast
    have notmiss: "\<not> must_miss args h"
    proof
      assume "must_miss args h"
      then have "header_value up args h s = (None, s)" by (simp add: header_value_plain must_miss_def)
      with hv Some show False by simp
    qed
    have a: "fst (snd (build_headers up args defs (h # rest) acc missing s)) = missing @ hm"
      using eq r by simp
    have b: "\<forall>h'\<in>set (h # rest). must_miss args h' \<and> def_required defs h'
               \<longrightarrow> missing_of defs h' ''header'' \<in> set hm"
      using lo notmiss by simp
    have c: "\<forall>m\<in>set hm. \<exists>h'\<in>set (h # rest).
               m = missing_of defs h' ''header'' \<and> def_required defs h' \<and> may_miss args s h'"
    proof
      fix m
      assume "m \<in> set hm"
      with hi obtain h' where "h' \<in> set rest" "m = missing_of defs h' ''header''"
          "def_required defs h'" "may_miss args s1 h'" by blast
      with mono show "\<exists>h'\<in>set (h # rest).
               m = missing_of defs h' ''header'' \<and> def_required defs h' \<and> may_miss args s h'" by auto
    qed
    from a b c show ?thesis by blast
  qed
qed

lemma mi_name_missing_of [simp]: "mi_name (missing_of defs p loc) = sanitize p"
  by (simp add: missing_of_def)

lemma ri_name_to_required [simp]: "ri_name (to_required mi) = mi_name mi"
  by (simp add: to_required_def)

lemma filter_missing_of:
  "filter (\<lambda>mi. mi_name mi \<noteq> ''api_token'') (map (\<lambda>p. missing_of defs p loc) (filter P ps))
     = map (\<lambda>p. missing_of defs p loc) (filter (\<lambda>p. P p \<and> sanitize p \<noteq> ''api_token'') ps)"
  by (induction ps) auto

lemma collect_inputs_parts:
  assumes "collect_inputs up op args s = (Inr (urlPath, qp, hs, data, missingInputs), s1)"
  shows "\<exists>m2. m2 = map (\<lambda>p. missing_of (paramDefs_path op) p ''path'')
                     (filter (\<lambda>p. lookup_arg args p = None) (pathParams op))
                 @ map (\<lambda>q. missing_of (paramDefs_query op) q ''query'')
                     (filter (\<lambda>q. lookup_arg args q = None \<and> def_required (paramDefs_query op) q)
                             (queryParams op))
          \<and> hs = fst (build_headers up args (paramDefs_header op) (headerParams op) [] m2 s)
          \<and> s1 = snd (snd (build_headers up args (paramDefs_header op) (headerParams op) [] m2 s))
          \<and> data = js_get args ''body''
          \<and> missingInputs =
              fst (snd (build_headers up args (paramDefs_header op) (headerParams op) [] m2 s))
              @ (if bodyRequired op \<and> js_get args ''body'' = None then [body_missing op] else [])"
proof -
  obtain e u0 m1 where bu: "build_url args (paramDefs_path op) (pathParams op) (op_path op) [] = (e, u0, m1)"
    by (metis prod.exhaust)
  with assms have e: "e = None" by (auto simp: collect_inputs_def split: option.splits prod.splits)
  with bu have "fst (build_url args (paramDefs_path op) (pathParams op) (op_path op) []) = None" by simp
  from build_url_missing[OF this] bu
  have m1: "m1 = map (\<lambda>p. missing_of (paramDefs_path op) p ''path'')
                     (filter (\<lambda>p. lookup_arg args p = None) (pathParams op))"
    by simp
  obtain qp' m2 where bq: "build_query args (paramDefs_query op) (queryParams op) [] m1 = (qp', m2)"
    by (metis prod.exhaust)
  from build_query_missing[of args "paramDefs_query op" "queryParams op" "[]" m1] bq m1
  have m2: "m2 = map (\<lambda>p. missing_of (paramDefs_path op) p ''path'')
                     (filter (\<lambda>p. lookup_arg args p = None) (pathParams op))
                 @ map (\<lambda>q. missing_of (paramDefs_query op) q ''query'')
                     (filter (\<lambda>q. lookup_arg args q = None \<and> def_required (paramDefs_query op) q)
                             (queryParams op))"
    by simp
  from assms bu e bq show ?thesis
    unfolding m2[symmetric]
    by (auto simp: collect_inputs_def split: prod.splits)
qed

text \<open>
  The elicitation list, between its bounds: it has every absent input, and beyond those
  at most the entry of \<open>x-access-token\<close>, which needs a required header without a truthy
  argument and a session without a vendor token.
\<close>

lemma elicited_bounds:
  assumes ci: "collect_inputs up op args s = (Inr (urlPath, qp, hs, data, missingInputs), s1)"
  shows "set (absent_inputs op args)
           \<subseteq> set (map to_required (filter (\<lambda>mi. mi_name mi \<noteq> ''api_token'') missingInputs))"
    and "\<forall>ri\<in>set (map to_required (filter (\<lambda>mi. mi_name mi \<noteq> ''api_token'') missingInputs)).
           ri \<in> set (absent_inputs op args)
           \<or> (ri = access_token_input op
               \<and> ''x-access-token'' \<in> set (headerParams op)
               \<and> def_required (paramDefs_header op) ''x-access-token''
               \<and> \<not> truthy (lookup_arg args ''x-access-token'')
               \<and> \<not> truthy (amazonAccessToken s))"
proof -
  let ?na = "\<lambda>mi. mi_name mi \<noteq> ''api_token''"
  let ?pm = "map (\<lambda>p. missing_of (paramDefs_path op) p ''path'')
                 (filter (\<lambda>p. lookup_arg args p = None) (pathParams op))"
  let ?qm = "map (\<lambda>q. missing_of (paramDefs_query op) q ''query'')
                 (filter (\<lambda>q. lookup_arg args q = None \<and> def_required (paramDefs_query op) q) (queryParams op))"
  let ?bm = "(if bodyRequired op \<and> js_get args ''body'' = None then [body_missing op] else [])"
  let ?defs = "paramDefs_header op"
  from collect_inputs_parts[OF ci]
  have mi: "missingInputs =
              fst (snd (build_headers up args ?defs (headerParams op) [] (?pm @ ?qm) s)) @ ?bm"
    by simp
  from build_headers_missing[of up args ?defs "headerParams op" "[]" "?pm @ ?qm" s]
  obtain hm where h: "fst (snd (build_headers up args ?defs (headerParams op) [] (?pm @ ?qm) s)) = (?pm @ ?qm) @ hm"
    and lo: "\<forall>h\<in>set (headerParams op). must_miss args h \<and> def_required ?defs h
               \<longrightarrow> missing_of ?defs h ''header'' \<in> set hm"
    and hi: "\<forall>m\<in>set hm. \<exists>h\<in>set (headerParams op).
               m = missing_of ?defs h ''header'' \<and> def_required ?defs h \<and> may_miss args s h"
    by blast
  have all: "missingInputs = ?pm @ ?qm @ hm @ ?bm" using mi h by simp
  define P where "P = map to_required (filter ?na ?pm)"
  define Q where "Q = map to_required (filter ?na ?qm)"
  define H where "H = map to_required (filter ?na hm)"
  define B where "B = map to_required (filter ?na ?bm)"
  define AH where "AH = map (\<lambda>h. to_required (missing_of ?defs h ''header''))
         (filter (\<lambda>h. h \<noteq> ''x-access-token'' \<and> lookup_arg args h = None
                       \<and> def_required ?defs h \<and> sanitize h \<noteq> ''api_token'')
                 (headerParams op))"
  have fpm: "P = map (\<lambda>p. to_required (missing_of (paramDefs_path op) p ''path''))
           (filter (\<lambda>p. lookup_arg args p = None \<and> sanitize p \<noteq> ''api_token'') (pathParams op))"
    unfolding P_def by (simp add: filter_missing_of comp_def)
  have fqm: "Q = map (\<lambda>q. to_required (missing_of (paramDefs_query op) q ''query''))
           (filter (\<lambda>q. lookup_arg args q = None \<and> def_required (paramDefs_query op) q
                       \<and> sanitize q \<noteq> ''api_token'') (queryParams op))"
    unfolding Q_def by (simp add: filter_missing_of comp_def conj_ac)
  have fbm: "B = (if bodyRequired op \<and> js_get args ''body'' = None then [to_required (body_missing op)] else [])"
    unfolding B_def by (simp add: body_missing_def)
  have ab: "absent_inputs op args = P @ Q @ AH @ B"
    unfolding fpm fqm fbm AH_def by (simp add: absent_inputs_def)
  have fl: "map to_required (filter ?na missingInputs) = P @ Q @ H @ B"
    unfolding all P_def Q_def H_def B_def by simp
  have low: "set AH \<subseteq> set H"
  proof
    fix ri
    assume "ri \<in> set AH"
    then obtain h where hh: "h \<in> set (headerParams op)" "h \<noteq> ''x-access-token''" "lookup_arg args h = None"
      "def_required ?defs h" "sanitize h \<noteq> ''api_token''"
      and ri: "ri = to_required (missing_of ?defs h ''header'')"
      unfolding AH_def by auto
    from hh lo have "missing_of ?defs h ''header'' \<in> set hm" by (simp add: must_miss_def)
    moreover have "?na (missing_of ?defs h ''header'')" using hh(5) by simp
    ultimately have "missing_of ?defs h ''header'' \<in> set (filter ?na hm)" by simp
    then show "ri \<in> set H" unfolding H_def ri by (simp only: set_map image_eqI)
  qed
  have high: "ri \<in> set AH
           \<or> (ri = access_token_input op
               \<and> ''x-access-token'' \<in> set (headerParams op)
               \<and> def_required ?defs ''x-access-token''
               \<and> \<not> truthy (lookup_arg args ''x-access-token'')
               \<and> \<not> truthy (amazonAccessToken s))" if "ri \<in> set H" for ri
  proof -
    from that obtain m where m: "m \<in> set hm" "?na m" and ri: "ri = to_required m"
      unfolding H_def by auto
    from m(1) hi obtain h where hh: "m = missing_of ?defs h ''header''" "h \<in> set (headerParams op)"
      "def_required ?defs h" "may_miss args s h"
      by blast
    from m(2) hh(1) have sn: "sanitize h \<noteq> ''api_token''" by simp
    show ?thesis
    proof (cases "h = ''x-access-token''")
      case True
      with hh ri show ?thesis by (simp add: access_token_input_def may_miss_def)
    next
      case False
      with hh sn have "h \<in> set (filter (\<lambda>h. h \<noteq> ''x-access-token'' \<and> lookup_arg args h = None
                       \<and> def_required ?defs h \<and> sanitize h \<noteq> ''api_token'') (headerParams op))"
        by (simp add: may_miss_def)
      then have "to_required (missing_of ?defs h ''header'') \<in> set AH"
        unfolding AH_def by (simp only: set_map image_eqI)
      with ri hh(1) show ?thesis by simp
    qed
  qed
  show "set (absent_inputs op args) \<subseteq> set (map to_required (filter ?na missingInputs))"
    unfolding ab fl using low by auto
  show "\<forall>ri\<in>set (map to_required (filter ?na missingInputs)).
           ri \<in> set (absent_inputs op args)
           \<or> (ri = access_token_input op
               \<and> ''x-access-token'' \<in> set (headerParams op)
               \<and> def_required ?defs ''x-access-token''
               \<and> \<not> truthy (lookup_arg args ''x-access-token'')
               \<and> \<not> truthy (amazonAccessToken s))"
  proof
    fix ri
    assume "ri \<in> set (map to_required (filter ?na missingInputs))"
    then have "ri \<in> set P \<or> ri \<in> set Q \<or> ri \<in> set H \<or> ri \<in> set B" unfolding fl by simp
    then consider "ri \<in> set P \<or> ri \<in> set Q \<or> ri \<in> set B" | "ri \<in> set H" by blast
    then show "ri \<in> set (absent_inputs op args)
           \<or> (ri = access_token_input op
               \<and> ''x-access-token'' \<in> set (headerParams op)
               \<and> def_required ?defs ''x-access-token''
               \<and> \<not> truthy (lookup_arg args ''x-access-token'')
               \<and> \<not> truthy (amazonAccessToken s))"
    proof cases
      case 1
      then have "ri \<in> set (absent_inputs op args)" unfolding ab by auto
      then show ?thesis by simp
    next
      case 2
      from high[OF this] show ?thesis unfolding ab by auto
    qed
  qed
qed

section \<open>The vendor token of the header step\<close>

lemma map_of_obj_set_other: "k' \<noteq> k \<Longrightarrow> map_of (obj_set kvs k v) k' = map_of kvs k'"
  by (induction kvs) auto

lemma map_of_obj_delete_other: "k' \<noteq> k \<Longrightarrow> map_of (obj_delete kvs k) k' = map_of kvs k'"
  by (induction kvs) (auto simp: obj_delete_def)

lemma getAmazonAccessToken_stable:
  assumes "token_stable up s"
  shows "amazonAccessToken (snd (getAmazonAccessToken up s)) = amazonAccessToken s"
proof (cases "truthy (amazonAccessToken s)")
  case True
  then show ?thesis by (simp add: getAmazonAccessToken_def)
next
  case False
  with assms obtain e where "vendor_endpoint up (wire s) = HttpError e"
    unfolding token_stable_def by blast
  with False show ?thesis by (simp add: getAmazonAccessToken_def Let_def)
qed

lemma header_value_stable:
  assumes "token_stable up s"
  shows "fst (header_value up args h s) = header_val args (amazonAccessToken s) h"
    and "amazonAccessToken (snd (header_value up args h s)) = amazonAccessToken s"
proof -
  note g = getAmazonAccessToken_stable[OF assms]
  show "fst (header_value up args h s) = header_val args (amazonAccessToken s) h"
  proof (cases "h = ''x-access-token'' \<and> \<not> truthy (lookup_arg args h)")
    case True
    then show ?thesis using g by (simp add: header_value_def header_val_def Let_def)
  next
    case False
    then have "header_value up args h s = (lookup_arg args h, s)"
      by (auto simp: header_value_def Let_def)
    with False show ?thesis by (auto simp: header_val_def)
  qed
  show "amazonAccessToken (snd (header_value up args h s)) = amazonAccessToken s"
    using g by (simp add: header_value_def Let_def)
qed

lemma token_stable_step:
  assumes "token_stable up s" and "amazonAccessToken s' = amazonAccessToken s"
  shows "token_stable up s'"
  using assms unfolding token_stable_def by simp

lemma map_of_set_prop_eq:
  "k \<noteq> ''__proto__'' \<Longrightarrow> map_of (set_prop acc h val) k = (if k = h then Some val else map_of acc k)"
  by (simp add: set_prop_def map_of_obj_set map_of_obj_set_other)

lemma build_headers_stable:
  assumes "token_stable up s"
  shows "amazonAccessToken (snd (snd (build_headers up args defs hs acc missing s))) = amazonAccessToken s
     \<and> fst (snd (build_headers up args defs hs acc missing s)) =
         missing @ map (\<lambda>h. missing_of defs h ''header'')
                      (filter (\<lambda>h. header_val args (amazonAccessToken s) h = None \<and> def_required defs h) hs)
     \<and> (\<forall>k. k \<noteq> ''__proto__'' \<longrightarrow> map_of (fst (build_headers up args defs hs acc missing s)) k =
             (if k \<in> set hs \<and> header_val args (amazonAccessToken s) k \<noteq> None
              then header_val args (amazonAccessToken s) k else map_of acc k))"
  using assms
proof (induction hs arbitrary: acc missing s)
  case Nil
  then show ?case by simp
next
  case (Cons h rest)
  let ?A = "amazonAccessToken s"
  obtain v s1 where hv: "header_value up args h s = (v, s1)" by (cases "header_value up args h s")
  have v: "v = header_val args ?A h" and a1: "amazonAccessToken s1 = ?A"
    using header_value_stable[OF Cons.prems, of args h] hv by simp_all
  have st1: "token_stable up s1" using token_stable_step[OF Cons.prems a1] .
  show ?case
  proof (cases v)
    case None
    let ?m = "(if def_required defs h then missing @ [missing_of defs h ''header''] else missing)"
    from None hv have eq: "build_headers up args defs (h # rest) acc missing s = build_headers up args defs rest acc ?m s1"
      by simp
    from Cons.IH[OF st1, of acc ?m] show ?thesis
      unfolding eq a1 using None v by auto
  next
    case (Some val)
    from Some hv have eq: "build_headers up args defs (h # rest) acc missing s
                             = build_headers up args defs rest (set_prop acc h val) missing s1"
      by simp
    from Cons.IH[OF st1, of "set_prop acc h val" missing] show ?thesis
      unfolding eq a1 using Some v by (auto simp: map_of_set_prop_eq)
  qed
qed

lemma build_headers_cached:
  "truthy (amazonAccessToken s) \<Longrightarrow> snd (snd (build_headers up args defs hs acc missing s)) = s"
proof (induction hs arbitrary: acc missing)
  case Nil
  then show ?case by simp
next
  case (Cons h rest)
  obtain v s1 where hv: "header_value up args h s = (v, s1)" by (cases "header_value up args h s")
  then have "s1 = s" using header_value_cached[OF Cons.prems, of up args h] by simp
  with hv Cons show ?case by (cases v) simp_all
qed

text \<open>The first fetch of a call, when it succeeds with a truthy token.\<close>

lemma build_headers_fetched:
  assumes "''x-access-token'' \<in> set hs"
    and "\<not> truthy (lookup_arg args ''x-access-token'')"
    and "\<not> truthy (amazonAccessToken s)"
    and "vendor_endpoint up (wire s) = HttpOk d"
    and "read_prop d ''access_token'' = Inr t"
    and "truthy t"
  shows "snd (snd (build_headers up args defs hs acc missing s))
           = s\<lparr>wire := wire s @ [VendorTokenFetch (marketplaceId s)], amazonAccessToken := t\<rparr>
         \<and> map_of (fst (build_headers up args defs hs acc missing s)) ''x-access-token'' = t"
  using assms(1)
proof (induction hs arbitrary: acc missing)
  case Nil
  then show ?case by simp
next
  case (Cons h rest)
  show ?case
  proof (cases "h = ''x-access-token''")
    case True
    let ?s1 = "s\<lparr>wire := wire s @ [VendorTokenFetch (marketplaceId s)], amazonAccessToken := t\<rparr>"
    from assms(6) obtain v where v: "t = Some v" by (cases t) auto
    have hv: "header_value up args h s = (Some v, ?s1)"
      using True assms(2-5) v by (simp add: header_value_def getAmazonAccessToken_def Let_def)
    then have eq: "build_headers up args defs (h # rest) acc missing s
                     = build_headers up args defs rest (set_prop acc h v) missing ?s1"
      by simp
    have tr: "truthy (amazonAccessToken ?s1)" using assms(6) by simp
    then have st: "token_stable up ?s1" by (simp add: token_stable_def)
    have hval: "header_val args t ''x-access-token'' = t"
      using assms(2) by (simp add: header_val_def)
    from build_headers_stable[OF st, of args defs rest "set_prop acc h v" missing]
    have "map_of (fst (build_headers up args defs rest (set_prop acc h v) missing ?s1)) ''x-access-token'' = t"
      using hval v True by (simp add: map_of_set_prop)
    moreover have "snd (snd (build_headers up args defs rest (set_prop acc h v) missing ?s1)) = ?s1"
      by (rule build_headers_cached[OF tr])
    ultimately show ?thesis unfolding eq by simp
  next
    case False
    then have hv: "header_value up args h s = (lookup_arg args h, s)" by (simp add: header_value_plain)
    from False Cons.prems have "''x-access-token'' \<in> set rest" by simp
    note ih = Cons.IH[OF this]
    show ?thesis
    proof (cases "lookup_arg args h")
      case None
      with hv show ?thesis using ih by simp
    next
      case (Some val)
      with hv show ?thesis using ih by simp
    qed
  qed
qed

lemma apply_bearer_other_headers:
  assumes "apply_bearer up args reg names hs s = (Inr hs1, s2)" and "k \<noteq> ''Authorization''"
  shows "map_of hs1 k = map_of hs k"
  using assms(1)
proof (induction names)
  case Nil
  then show ?case by simp
next
  case (Cons n rest)
  have o: "map_of (set_prop hs ''Authorization'' v) k = map_of hs k" for v
    using assms(2) by (simp add: set_prop_def map_of_obj_set_other)
  from Cons show ?case
    by (auto simp: o split: option.splits bool.splits prod.splits sum.splits if_splits)
qed

lemma apply_security_other_headers:
  assumes "apply_security up op args hs s = (Inr (b, hs1), s2)" and "k \<noteq> ''Authorization''"
  shows "map_of hs1 k = map_of hs k"
proof (cases "security op")
  case Nil
  with assms(1) show ?thesis by (simp add: apply_security_def)
next
  case (Cons requirement others)
  show ?thesis
  proof (cases b)
    case True
    with Cons assms(1) have "hs1 = obj_delete hs ''Authorization''"
      by (auto simp: apply_security_def split: sum.splits bool.splits prod.splits)
    then show ?thesis using assms(2) by (simp add: map_of_obj_delete_other)
  next
    case False
    with Cons assms(1) obtain s3 where "apply_bearer up args (registry s) requirement hs s = (Inr hs1, s3)"
      by (auto simp: apply_security_def split: prod.splits sum.splits bool.splits)
    from apply_bearer_other_headers[OF this assms(2)] show ?thesis .
  qed
qed

text \<open>
  The keys of the header set: those of declared header parameters, and \<open>Authorization\<close>
  when the security step has set it; under Basic authentication \<open>Authorization\<close> is not
  among them.
\<close>

lemma obj_set_keys: "fst ` set (obj_set kvs k v) = insert k (fst ` set kvs)"
proof (induction kvs)
  case Nil
  show ?case by simp
next
  case (Cons kv kvs)
  obtain k' v' where kv: "kv = (k', v')" by (cases kv)
  show ?case
  proof (cases "k' = k")
    case True
    with kv show ?thesis by simp
  next
    case False
    with kv have "fst ` set (obj_set (kv # kvs) k v) = insert k' (fst ` set (obj_set kvs k v))" by simp
    with Cons.IH kv show ?thesis by auto
  qed
qed

lemma set_prop_keys: "fst ` set (set_prop kvs k v) \<subseteq> insert k (fst ` set kvs)"
  by (simp add: set_prop_def obj_set_keys subset_insertI)

lemma build_headers_keys:
  "fst ` set (fst (build_headers up args defs hs acc missing s)) \<subseteq> fst ` set acc \<union> set hs"
proof (induction hs arbitrary: acc missing s)
  case Nil
  then show ?case by simp
next
  case (Cons h rest)
  obtain v s1 where hv: "header_value up args h s = (v, s1)" by (cases "header_value up args h s")
  show ?case
  proof (cases v)
    case None
    let ?m = "(if def_required defs h then missing @ [missing_of defs h ''header''] else missing)"
    from None hv have eq: "build_headers up args defs (h # rest) acc missing s = build_headers up args defs rest acc ?m s1"
      by simp
    have a: "fst ` set (fst (build_headers up args defs rest acc ?m s1)) \<subseteq> fst ` set acc \<union> set rest"
      by (rule Cons.IH)
    have b: "fst ` set acc \<union> set rest \<subseteq> fst ` set acc \<union> set (h # rest)" by auto
    from a b show ?thesis unfolding eq by (rule subset_trans)
  next
    case (Some val)
    from Some hv have eq: "build_headers up args defs (h # rest) acc missing s
                             = build_headers up args defs rest (set_prop acc h val) missing s1"
      by simp
    have a: "fst ` set (fst (build_headers up args defs rest (set_prop acc h val) missing s1))
               \<subseteq> fst ` set (set_prop acc h val) \<union> set rest"
      by (rule Cons.IH)
    have b: "fst ` set (set_prop acc h val) \<union> set rest \<subseteq> fst ` set acc \<union> set (h # rest)"
      using set_prop_keys[of acc h val] by auto
    from a b show ?thesis unfolding eq by (rule subset_trans)
  qed
qed

lemma apply_bearer_keys:
  assumes "apply_bearer up args reg names hs s = (Inr hs1, s2)"
  shows "fst ` set hs1 \<subseteq> insert ''Authorization'' (fst ` set hs)"
  using assms
proof (induction names)
  case Nil
  then show ?case by auto
next
  case (Cons n rest)
  from Cons set_prop_keys[of hs "''Authorization''"] show ?case
    by (auto split: option.splits bool.splits prod.splits sum.splits if_splits)
qed

lemma obj_delete_keys: "fst ` set (obj_delete kvs k) = fst ` set kvs - {k}"
  by (auto simp: obj_delete_def)

lemma apply_security_keys:
  assumes "apply_security up op args hs s = (Inr (b, hs1), s2)"
  shows "fst ` set hs1 \<subseteq> insert ''Authorization'' (fst ` set hs)"
    and "b \<Longrightarrow> fst ` set hs1 \<subseteq> fst ` set hs - {''Authorization''}"
proof -
  show "fst ` set hs1 \<subseteq> insert ''Authorization'' (fst ` set hs)"
  proof (cases "security op")
    case Nil
    with assms show ?thesis by (auto simp: apply_security_def)
  next
    case (Cons requirement others)
    show ?thesis
    proof (cases b)
      case True
      with Cons assms have "hs1 = obj_delete hs ''Authorization''"
        by (auto simp: apply_security_def split: sum.splits bool.splits prod.splits)
      then show ?thesis by (auto simp: obj_delete_keys)
    next
      case False
      with Cons assms obtain s3 where "apply_bearer up args (registry s) requirement hs s = (Inr hs1, s3)"
        by (auto simp: apply_security_def split: prod.splits sum.splits bool.splits)
      from apply_bearer_keys[OF this] show ?thesis .
    qed
  qed
  show "fst ` set hs1 \<subseteq> fst ` set hs - {''Authorization''}" if b
  proof (cases "security op")
    case Nil
    with assms that show ?thesis by (auto simp: apply_security_def)
  next
    case (Cons requirement others)
    with assms that have "hs1 = obj_delete hs ''Authorization''"
      by (auto simp: apply_security_def split: sum.splits bool.splits prod.splits)
    then show ?thesis by (simp add: obj_delete_keys)
  qed
qed

lemma auth_step_amazon: "auth_step s s' \<Longrightarrow> amazonAccessToken s' = amazonAccessToken s"
  unfolding auth_step_def by auto

text \<open>After the build steps a dispatch fetches no vendor token and leaves the cached one alone.\<close>

lemma dispatch_after_collect:
  assumes ci: "collect_inputs up op args s = (Inr (urlPath, qp, hs, data, missingInputs), s1)"
  shows "amazonAccessToken (snd (dispatch up op args s)) = amazonAccessToken s1
         \<and> (\<exists>rest. wire (snd (dispatch up op args s)) = wire s1 @ rest
                   \<and> (\<forall>e\<in>set rest. \<not> is_vendor_fetch e))"
  using ci
proof (cases rule: dispatch_cases)
  case elicit
  then show ?thesis by simp
next
  case (denied e s2)
  from apply_security_auth_step[of s1 up op args hs] denied(2) have as: "auth_step s1 s2" by simp
  then obtain au where "wire s2 = wire s1 @ au" and "au = [] \<or> (\<exists>x. au = [AuthExchange x])"
    by (rule auth_step_wire)
  then have "\<exists>rest. wire s2 = wire s1 @ rest \<and> (\<forall>e\<in>set rest. \<not> is_vendor_fetch e)" by auto
  then show ?thesis using denied(3) auth_step_amazon[OF as] by simp
next
  case (run b hs1 s2)
  from apply_security_auth_step[of s1 up op args hs] run(2) have as: "auth_step s1 s2" by simp
  then obtain au where w2: "wire s2 = wire s1 @ au" and au: "au = [] \<or> (\<exists>x. au = [AuthExchange x])"
    by (rule auth_step_wire)
  let ?last = "(if b \<and> (username s2 = [] \<or> password s2 = []) then []
               else [ApiRequest (axios_config op urlPath qp data hs1
                                   (if b then Some (username s2, password s2) else None))])"
  have w3: "wire (snd (dispatch up op args s)) = wire s1 @ (au @ ?last)"
    using run(3) execute_wire[of up op urlPath qp data b hs1 s2] w2 by simp
  have "\<forall>e\<in>set (au @ ?last). \<not> is_vendor_fetch e" using au by auto
  with w3 have "\<exists>rest. wire (snd (dispatch up op args s)) = wire s1 @ rest \<and> (\<forall>e\<in>set rest. \<not> is_vendor_fetch e)"
    by blast
  moreover have "amazonAccessToken (snd (dispatch up op args s)) = amazonAccessToken s1"
    using run(3) auth_step_amazon[OF as]
    by (simp add: execute_def send_request_state)
  ultimately show ?thesis by simp
qed

lemma js_get_Some: "map_of obj k = Some v \<Longrightarrow> js_get obj k = Some v"
  by (simp add: js_get_def)

lemma js_get_plain: "k \<notin> set object_prototype_names \<Longrightarrow> js_get obj k = map_of obj k"
  by (simp add: js_get_def split: option.splits)

lemma header_val_null:
  "(header_val args (Some JNull) h = None) = (h \<noteq> ''x-access-token'' \<and> lookup_arg args h = None)"
  by (auto simp: header_val_def)

text \<open>
  With the token field \<open>null\<close> and a vendor endpoint that fails, the elicitation list is
  the list of absent inputs.
\<close>

lemma collect_inputs_missing_exact:
  assumes ci: "collect_inputs up op args s = (Inr (urlPath, qp, hs, data, missingInputs), s1)"
    and null: "amazonAccessToken s = Some JNull"
    and fail: "\<forall>w. \<exists>e. vendor_endpoint up w = HttpError e"
  shows "map to_required (filter (\<lambda>mi. mi_name mi \<noteq> ''api_token'') missingInputs) = absent_inputs op args"
proof -
  have st: "token_stable up s" using fail by (simp add: token_stable_def)
  let ?m1 = "map (\<lambda>p. missing_of (paramDefs_path op) p ''path'')
                 (filter (\<lambda>p. lookup_arg args p = None) (pathParams op))"
  let ?mq = "map (\<lambda>q. missing_of (paramDefs_query op) q ''query'')
                 (filter (\<lambda>q. lookup_arg args q = None \<and> def_required (paramDefs_query op) q) (queryParams op))"
  let ?mh = "map (\<lambda>h. missing_of (paramDefs_header op) h ''header'')
                 (filter (\<lambda>h. (h \<noteq> ''x-access-token'' \<and> lookup_arg args h = None)
                               \<and> def_required (paramDefs_header op) h) (headerParams op))"
  let ?mb = "(if bodyRequired op \<and> js_get args ''body'' = None then [body_missing op] else [])"
  from collect_inputs_parts[OF ci]
  have mi: "missingInputs =
              fst (snd (build_headers up args (paramDefs_header op) (headerParams op) [] (?m1 @ ?mq) s)) @ ?mb"
    by simp
  from build_headers_stable[OF st, of args "paramDefs_header op" "headerParams op" "[]" "?m1 @ ?mq"]
  have "fst (snd (build_headers up args (paramDefs_header op) (headerParams op) [] (?m1 @ ?mq) s))
          = (?m1 @ ?mq) @ ?mh"
    by (simp add: null header_val_null)
  with mi have "missingInputs = ?m1 @ ?mq @ ?mh @ ?mb" by simp
  then have "filter (\<lambda>mi. mi_name mi \<noteq> ''api_token'') missingInputs =
       filter (\<lambda>mi. mi_name mi \<noteq> ''api_token'') ?m1 @ filter (\<lambda>mi. mi_name mi \<noteq> ''api_token'') ?mq
       @ filter (\<lambda>mi. mi_name mi \<noteq> ''api_token'') ?mh @ ?mb"
    by (simp add: body_missing_def)
  then show ?thesis
    unfolding filter_missing_of by (simp add: absent_inputs_def conj_ac)
qed

lemma with_proxy_marketplace: "marketplaceId (with_proxy typedArgs s) = marketplaceId s"
  by (simp add: with_proxy_def setProxyUserId_def split: option.splits)

lemma execute_not_elicitation: "fst (execute up op urlPath qp data b hs s) \<noteq> Inr (Elicitation q)"
  by (simp add: execute_def send_request_result split: http_reply.splits)

text \<open>A call whose path loop throws ends with the error, and sends nothing.\<close>

lemma call_tool_unprintable:
  assumes "isReady s" and "map_of (operationMap s) name = Some op"
    and "proxy_user_arg typedArgs = None \<or> name \<noteq> ''getProxyUsers''"
    and "\<not> printable_paths op (argsOrEmpty typedArgs)"
  shows "call_tool up name typedArgs s = (Returned (ToolError type_error), with_proxy typedArgs s)"
proof (cases rule: collect_inputs_cases[of up op "argsOrEmpty typedArgs" "with_proxy typedArgs s"])
  case throws
  then have "dispatch up op (argsOrEmpty typedArgs) (with_proxy typedArgs s)
               = (Inl type_error, with_proxy typedArgs s)"
    by (simp add: dispatch_throws)
  from call_tool_error[OF assms(1-3) this] show ?thesis .
next
  case (built urlPath qp hs data missingInputs s1)
  with assms(4) show ?thesis by simp
qed

text \<open>
  A call that sends a request has built its inputs: every path value it found could be
  printed, and nothing was left to elicit.
\<close>

lemma call_tool_sent:
  assumes rq: "ApiRequest rq \<in> set (new_events s (snd (call_tool up name typedArgs s)))"
    and known: "map_of (operationMap s) name = Some op"
  obtains urlPath qp hs data missingInputs s1 b hs1 s2 where
    "collect_inputs up op (argsOrEmpty typedArgs) (with_proxy typedArgs s)
       = (Inr (urlPath, qp, hs, data, missingInputs), s1)"
    and "printable_paths op (argsOrEmpty typedArgs)"
    and "filter (\<lambda>mi. mi_name mi \<noteq> ''api_token'') missingInputs = []"
    and "apply_security up op (argsOrEmpty typedArgs) hs s1 = (Inr (b, hs1), s2)"
    and "rq = axios_config op urlPath qp data hs1 (if b then Some (username s, password s) else None)"
proof (cases rule: collect_inputs_cases[of up op "argsOrEmpty typedArgs" "with_proxy typedArgs s"])
  case throws
  then have "snd (dispatch up op (argsOrEmpty typedArgs) (with_proxy typedArgs s)) = with_proxy typedArgs s"
    by (simp add: dispatch_throws)
  with call_tool_request[OF rq known] show ?thesis by (simp add: new_events_def)
next
  case (built urlPath qp hs data missingInputs s1)
  from dispatch_request[OF built(1) call_tool_request[OF rq known]]
  obtain b hs1 s2 where "apply_security up op (argsOrEmpty typedArgs) hs s1 = (Inr (b, hs1), s2)"
    and "filter (\<lambda>mi. mi_name mi \<noteq> ''api_token'') missingInputs = []"
    and "rq = axios_config op urlPath qp data hs1
                (if b then Some (username (with_proxy typedArgs s), password (with_proxy typedArgs s)) else None)"
    by blast
  with built that show ?thesis by (simp add: with_proxy_fields)
qed

text \<open>
  A call that sends a request had a printable value for every declared path parameter,
  those apart whose sanitized name is \<open>api_token\<close>.
\<close>

lemma request_needs_path_values:
  assumes rq: "ApiRequest rq \<in> set (new_events s (snd (call_tool up name typedArgs s)))"
    and known: "map_of (operationMap s) name = Some op"
    and p: "p \<in> set (pathParams op)" "sanitize p \<noteq> ''api_token''"
  shows "\<exists>v tx. lookup_arg (argsOrEmpty typedArgs) p = Some v \<and> to_String v = Some tx"
proof -
  let ?args = "argsOrEmpty typedArgs"
  from rq known obtain urlPath qp hs data missingInputs s1 where
    ci: "collect_inputs up op ?args (with_proxy typedArgs s) = (Inr (urlPath, qp, hs, data, missingInputs), s1)"
    and pr: "printable_paths op ?args"
    and f: "filter (\<lambda>mi. mi_name mi \<noteq> ''api_token'') missingInputs = []"
    by (rule call_tool_sent)
  have some: "lookup_arg ?args p \<noteq> None"
  proof
    assume none: "lookup_arg ?args p = None"
    have "to_required (missing_of (paramDefs_path op) p ''path'') \<in> set (absent_inputs op ?args)"
      using p none by (simp add: absent_inputs_def)
    with elicited_bounds(1)[OF ci] f show False by simp
  qed
  then obtain v where v: "lookup_arg ?args p = Some v" by blast
  from pr p(1) v have "to_String v \<noteq> None"
    by (auto simp: printable_paths_def list_all_iff)
  with v show ?thesis by blast
qed

text \<open>
  Absent inputs make the call return the elicitation reply, before any request of the
  operation and before any token exchange.
\<close>

lemma elicitation_reply:
  assumes ready: "isReady s"
    and known: "map_of (operationMap s) name = Some op"
    and noshort: "proxy_user_arg typedArgs = None \<or> name \<noteq> ''getProxyUsers''"
    and printable: "printable_paths op (argsOrEmpty typedArgs)"
    and absent: "absent_inputs op (argsOrEmpty typedArgs) \<noteq> []"
  shows "\<exists>reqs. fst (call_tool up name typedArgs s) = Returned (Elicitation reqs)
           \<and> \<not> isError (Elicitation reqs)
           \<and> set (absent_inputs op (argsOrEmpty typedArgs)) \<subseteq> set reqs
           \<and> (\<forall>ri\<in>set reqs.
                 ri \<in> set (absent_inputs op (argsOrEmpty typedArgs))
                 \<or> (ri = access_token_input op
                     \<and> ''x-access-token'' \<in> set (headerParams op)
                     \<and> def_required (paramDefs_header op) ''x-access-token''
                     \<and> \<not> truthy (lookup_arg (argsOrEmpty typedArgs) ''x-access-token'')
                     \<and> \<not> truthy (amazonAccessToken s)))
           \<and> (\<forall>ri\<in>set reqs. ri_name ri \<noteq> ''api_token'')
           \<and> (\<forall>e\<in>set (new_events s (snd (call_tool up name typedArgs s))). is_vendor_fetch e)"
proof (cases rule: collect_inputs_cases[of up op "argsOrEmpty typedArgs" "with_proxy typedArgs s"])
  case throws
  with printable show ?thesis by simp
next
  case (built urlPath qp hs data missingInputs s1)
  let ?s0 = "with_proxy typedArgs s"
  let ?args = "argsOrEmpty typedArgs"
  note ci = built(1)
  let ?f = "filter (\<lambda>mi. mi_name mi \<noteq> ''api_token'') missingInputs"
  let ?reqs = "map to_required ?f"
  have sub: "set (absent_inputs op ?args) \<subseteq> set ?reqs"
    using elicited_bounds(1)[OF ci] .
  have sup: "\<forall>ri\<in>set ?reqs.
                 ri \<in> set (absent_inputs op ?args)
                 \<or> (ri = access_token_input op
                     \<and> ''x-access-token'' \<in> set (headerParams op)
                     \<and> def_required (paramDefs_header op) ''x-access-token''
                     \<and> \<not> truthy (lookup_arg ?args ''x-access-token'')
                     \<and> \<not> truthy (amazonAccessToken s))"
    using elicited_bounds(2)[OF ci] by (simp only: with_proxy_fields)
  have ne: "?f \<noteq> []"
  proof
    assume "?f = []"
    then have "?reqs = []" by simp
    then have "set (absent_inputs op ?args) \<subseteq> set ([] :: required_input list)"
      using sub by (simp only:)
    then have "absent_inputs op ?args = []" by simp
    with absent show False by simp
  qed
  have ct: "call_tool up name typedArgs s = (Returned (Elicitation ?reqs), s1)"
    using call_tool_elicit[OF ready known noshort dispatch_elicit[OF ci ne]] .
  from collect_inputs_frame[of ?s0 up op ?args] ci have "vendor_step ?s0 s1" by simp
  then obtain vf where "wire s1 = wire s @ vf" and vf: "\<forall>e\<in>set vf. is_vendor_fetch e"
    using vendor_step_wire[of ?s0 s1] by (auto simp: with_proxy_fields)
  then have ev: "new_events s (snd (call_tool up name typedArgs s)) = vf"
    using ct by (simp add: new_events_def)
  have names: "\<forall>ri\<in>set ?reqs. ri_name ri \<noteq> ''api_token''" by auto
  have r: "fst (call_tool up name typedArgs s) = Returned (Elicitation ?reqs)" using ct by simp
  have e: "\<not> isError (Elicitation ?reqs)" by simp
  have v: "\<forall>e\<in>set (new_events s (snd (call_tool up name typedArgs s))). is_vendor_fetch e"
    using ev vf by simp
  from r e sub sup names v show ?thesis by blast
qed

text \<open>The URL of every request a call sends is the one built from the path template.\<close>

lemma sent_url:
  assumes rq: "ApiRequest rq \<in> set (new_events s (snd (call_tool up name typedArgs s)))"
    and known: "map_of (operationMap s) name = Some op"
  shows "rq_url rq = built_url op typedArgs"
proof -
  from rq known obtain urlPath qp hs data missingInputs s1 b hs1 where
    ci: "collect_inputs up op (argsOrEmpty typedArgs) (with_proxy typedArgs s)
           = (Inr (urlPath, qp, hs, data, missingInputs), s1)"
    and r: "rq = axios_config op urlPath qp data hs1 (if b then Some (username s, password s) else None)"
    by (rule call_tool_sent)
  from r have "rq_url rq = urlPath" by (simp add: axios_config_def)
  with collect_inputs_url[OF ci] show ?thesis by (simp add: built_url_def)
qed



section \<open>Unknown tools, and the delegated user\<close>

text \<open>
  Claim C5. A call that names a tool absent from the operation table should come back as
  an error-flagged result that carries the tool's name. The code throws
  \<open>Unknown tool: name\<close> inside the \<open>try\<close> block, but its \<open>catch\<close> block reads \<open>op.method\<close>
  while \<open>op\<close> is \<open>undefined\<close>: on a ready server every such call leaves the handler with
  a TypeError instead of returning a result.
\<close>

theorem unknown_tool_escapes:
  assumes "isReady s" and "map_of (operationMap s) name = None"
    and "proxy_user_arg typedArgs = None \<or> name \<noteq> ''getProxyUsers''"
  shows "\<exists>msg. fst (call_tool up name typedArgs s) = Escaped msg"
proof -
  have "fst (lookup_and_dispatch up name typedArgs s') = Escaped ''TypeError: Cannot read properties of undefined (reading method)''"
    if "map_of (operationMap s') name = None" for s'
    using that by (simp add: lookup_and_dispatch_def catch_block_def)
  then show ?thesis
    using assms by (auto simp: call_tool_def setProxyUserId_def split: option.splits)
qed

theorem unknown_tool_escapes_witness:
  "isReady sample_server \<and> map_of (operationMap sample_server) ''noSuchTool'' = None
   \<and> fst (call_tool sample_upstream ''noSuchTool'' (Some []) sample_server)
       = Escaped ''TypeError: Cannot read properties of undefined (reading method)''"
proof -
  have r: "isReady sample_server" by code_simp
  have u: "map_of (operationMap sample_server) ''noSuchTool'' = None" by code_simp
  have n: "proxy_user_arg (Some []) = None \<or> ''noSuchTool'' \<noteq> ''getProxyUsers''" by code_simp
  from unknown_tool_escapes[OF r u n, of sample_upstream]
  obtain msg where "fst (call_tool sample_upstream ''noSuchTool'' (Some []) sample_server) = Escaped msg"
    by blast
  moreover have "fst (call_tool sample_upstream ''noSuchTool'' (Some []) sample_server)
       = Escaped ''TypeError: Cannot read properties of undefined (reading method)''"
    by code_simp
  ultimately show ?thesis using r u by simp
qed

text \<open>
  Claim C10, as stated, fails on a server that is not ready, as a server is until its
  specification has been loaded: the handler answers that it is not ready before it
  looks at the arguments, and the delegated user is not set.
\<close>

theorem proxy_user_not_ready_counterexample:
  "isReady (new_server ''user'' ''secret'' None ''ATVPDKIKX0DER'') = False
   \<and> trim ''42'' = ''42''
   \<and> call_tool sample_upstream ''getWidget'' (Some [(''proxy_user_id'', JStr ''42'')])
        (new_server ''user'' ''secret'' None ''ATVPDKIKX0DER'')
       = (Returned NotReady, new_server ''user'' ''secret'' None ''ATVPDKIKX0DER'')
   \<and> proxyUserId (snd (call_tool sample_upstream ''getWidget'' (Some [(''proxy_user_id'', JStr ''42'')])
                          (new_server ''user'' ''secret'' None ''ATVPDKIKX0DER''))) = None"
  by code_simp

text \<open>
  Claim C10, amended. On a ready server, a call whose arguments bind \<open>proxy_user_id\<close> to a
  string that is not empty after trimming sets the delegated user to the trimmed value
  before the operation is looked up, whatever tool is named: the call is the rest of the
  handler run on the updated session. The update is still there when the handler is
  done, and in particular when the tool is unknown and the call fails.
\<close>

theorem proxy_user_set_before_lookup:
  assumes "isReady s" and "typedArgs = Some a" and "map_of a ''proxy_user_id'' = Some (JStr v)"
    and "trim v \<noteq> []"
  shows "call_tool up name typedArgs s =
           (if name = ''getProxyUsers''
            then (Returned (ProxyUserSet (trim v)), s\<lparr>proxyUserId := Some (trim v)\<rparr>)
            else lookup_and_dispatch up name typedArgs (s\<lparr>proxyUserId := Some (trim v)\<rparr>))
         \<and> proxyUserId (snd (call_tool up name typedArgs s)) = Some (trim v)
         \<and> (map_of (operationMap s) name = None \<and> name \<noteq> ''getProxyUsers''
              \<longrightarrow> (\<exists>msg. call_tool up name typedArgs s = (Escaped msg, s\<lparr>proxyUserId := Some (trim v)\<rparr>)))"
proof -
  have pa: "proxy_user_arg typedArgs = Some (trim v)"
    using assms by (simp add: proxy_user_arg_def js_get_Some)
  let ?s1 = "s\<lparr>proxyUserId := Some (trim v)\<rparr>"
  have eq: "call_tool up name typedArgs s =
           (if name = ''getProxyUsers'' then (Returned (ProxyUserSet (trim v)), ?s1)
            else lookup_and_dispatch up name typedArgs ?s1)"
    using assms(1) pa by (simp add: call_tool_def setProxyUserId_def)
  have keep: "proxyUserId (snd (lookup_and_dispatch up name typedArgs ?s1)) = Some (trim v)"
    using session_step_proxy[OF lookup_and_dispatch_session[of ?s1 up name typedArgs]] by simp
  have p2: "proxyUserId (snd (call_tool up name typedArgs s)) = Some (trim v)"
    using eq keep by simp
  have p3: "map_of (operationMap s) name = None \<and> name \<noteq> ''getProxyUsers''
              \<longrightarrow> (\<exists>msg. call_tool up name typedArgs s = (Escaped msg, ?s1))"
    using eq by (simp add: lookup_and_dispatch_def catch_block_def)
  from eq p2 p3 show ?thesis by blast
qed

theorem proxy_user_set_before_lookup_witness:
  "isReady sample_server \<and> trim '' 42 '' = ''42''
   \<and> map_of (operationMap sample_server) ''noSuchTool'' = None
   \<and> proxyUserId sample_server = None
   \<and> proxyUserId (snd (call_tool sample_upstream ''noSuchTool''
                          (Some [(''proxy_user_id'', JStr '' 42 '')]) sample_server)) = Some ''42''
   \<and> proxyUserId (snd (call_tool sample_upstream ''getWidget''
                          (Some [(''proxy_user_id'', JStr '' 42 '')]) sample_server)) = Some ''42''"
proof -
  have r: "isReady sample_server" by code_simp
  have t: "trim '' 42 '' = ''42''" by code_simp
  have m: "map_of [(''proxy_user_id'', JStr '' 42 '')] ''proxy_user_id'' = Some (JStr '' 42 '')" by simp
  have ne: "trim '' 42 '' \<noteq> []" using t by simp
  have u: "map_of (operationMap sample_server) ''noSuchTool'' = None" by code_simp
  have p: "proxyUserId sample_server = None" by code_simp
  note th = proxy_user_set_before_lookup[OF r refl m ne, of sample_upstream, THEN conjunct2, THEN conjunct1]
  have "proxyUserId (snd (call_tool sample_upstream ''noSuchTool''
                          (Some [(''proxy_user_id'', JStr '' 42 '')]) sample_server)) = Some ''42''"
    using th[of "''noSuchTool''"] t by simp
  moreover have "proxyUserId (snd (call_tool sample_upstream ''getWidget''
                          (Some [(''proxy_user_id'', JStr '' 42 '')]) sample_server)) = Some ''42''"
    using th[of "''getWidget''"] t by simp
  ultimately show ?thesis using r t u p by simp
qed

text \<open>
  Claim C8, as stated, fails: a \<open>proxy_user_id\<close> that is a non-empty string of white space
  only does not change the delegated user, and the proxy-user listing is then requested
  from the upstream as usual.
\<close>

theorem proxy_user_blank_counterexample:
  "map_of [(''proxy_user_id'', JStr ''  '')] ''proxy_user_id'' = Some (JStr ''  '') \<and> ''  '' \<noteq> []
   \<and> call_tool sample_upstream ''getProxyUsers'' (Some [(''proxy_user_id'', JStr ''  '')]) sample_server
       = (Returned (ToolSuccess (JStr ''ok'')),
          sample_server\<lparr>wire :=
            [ApiRequest \<lparr>rq_method = ''GET'', rq_url = ''/account/'', rq_params = None,
                         rq_data = None, rq_headers = [], rq_auth = Some (''user'', ''secret'')\<rparr>]\<rparr>)
   \<and> proxyUserId sample_server = None"
  by code_simp

text \<open>
  Claim C8, amended. On a ready server, a call of \<open>getProxyUsers\<close> whose \<open>proxy_user_id\<close> is
  a string that is not empty after trimming sets the delegated user to the trimmed
  value and returns the confirmation that names it; nothing else in the session changes,
  so nothing is sent to the upstream.
\<close>

theorem proxy_user_confirmation:
  assumes "isReady s" and "typedArgs = Some a" and "map_of a ''proxy_user_id'' = Some (JStr v)"
    and "trim v \<noteq> []"
  shows "call_tool up ''getProxyUsers'' typedArgs s
           = (Returned (ProxyUserSet (trim v)), s\<lparr>proxyUserId := Some (trim v)\<rparr>)
         \<and> new_events s (snd (call_tool up ''getProxyUsers'' typedArgs s)) = []"
proof -
  have "proxy_user_arg typedArgs = Some (trim v)"
    using assms by (simp add: proxy_user_arg_def js_get_Some)
  then show ?thesis
    using assms(1) by (simp add: call_tool_def setProxyUserId_def new_events_def)
qed

theorem proxy_user_confirmation_witness:
  "isReady sample_server \<and> trim '' 7 '' = ''7''
   \<and> call_tool sample_upstream ''getProxyUsers''
        (Some [(''proxy_user_id'', JStr '' 7 ''), (''api_token'', JStr ''zz'')]) sample_server
       = (Returned (ProxyUserSet ''7''), sample_server\<lparr>proxyUserId := Some ''7''\<rparr>)"
proof -
  have r: "isReady sample_server" by code_simp
  have t: "trim '' 7 '' = ''7''" by code_simp
  have m: "map_of [(''proxy_user_id'', JStr '' 7 ''), (''api_token'', JStr ''zz'')] ''proxy_user_id''
             = Some (JStr '' 7 '')" by simp
  have ne: "trim '' 7 '' \<noteq> []" using t by simp
  from proxy_user_confirmation[OF r refl m ne, of sample_upstream] show ?thesis using r t by simp
qed

section \<open>Loading the specification\<close>




section \<open>The request URL\<close>

text \<open>
  Claim C6. Take an operation as the compiler stores it, for a path that ends with a
  slash or for the path \<open>/account\<close> of \<open>getProxyUsers\<close>, whose slash the compiler forces.
  The URL the dispatcher builds for it ends with a slash whatever the arguments are, and
  every request a call of that tool sends carries exactly this URL.
\<close>

theorem trailing_slash_kept:
  assumes "op = snd (compile_operation doc pathKey item m od)"
    and "endsWith pathKey ''/''
         \<or> (pathKey = ''/account'' \<and> t_name (fst (compile_operation doc pathKey item m od)) = ''getProxyUsers'')"
    and "map_of (operationMap s) name = Some op"
  shows "endsWith (built_url op typedArgs) ''/''
         \<and> (\<forall>rq. ApiRequest rq \<in> set (new_events s (snd (call_tool up name typedArgs s)))
                \<longrightarrow> rq_url rq = built_url op typedArgs \<and> endsWith (rq_url rq) ''/'')"
proof -
  have flag: "pathHasTrailingSlash op" using assms(1,2) compile_operation_slash by simp
  then have e: "endsWith (built_url op typedArgs) ''/''"
    by (simp add: built_url_def restore_slash_ends)
  have "rq_url rq = built_url op typedArgs"
    if rq: "ApiRequest rq \<in> set (new_events s (snd (call_tool up name typedArgs s)))" for rq
    using sent_url[OF rq assms(3)] .
  with e show ?thesis by simp
qed

theorem trailing_slash_kept_witness:
  "map_of (operationMap sample_server) ''getWidget''
     = Some (snd (compile_operation sample_doc ''/widgets/{id}/'' widgets_item ''get'' get_widget))
   \<and> endsWith ''/widgets/{id}/'' ''/''
   \<and> new_events sample_server
         (snd (call_tool sample_upstream ''getWidget'' (Some [(''id'', JStr ''abc 123'')]) sample_server))
       = [VendorTokenFetch ''ATVPDKIKX0DER'', AuthExchange None,
          ApiRequest \<lparr>rq_method = ''GET'', rq_url = ''/widgets/abc%20123/'', rq_params = None,
                       rq_data = None,
                       rq_headers = [(''x-access-token'', JNull), (''Authorization'', JStr ''Bearer T1'')],
                       rq_auth = None\<rparr>]
   \<and> endsWith ''/widgets/abc%20123/'' ''/''"
proof -
  let ?op = "snd (compile_operation sample_doc ''/widgets/{id}/'' widgets_item ''get'' get_widget)"
  let ?rq = "\<lparr>rq_method = ''GET'', rq_url = ''/widgets/abc%20123/'', rq_params = None,
               rq_data = None,
               rq_headers = [(''x-access-token'', JNull), (''Authorization'', JStr ''Bearer T1'')],
               rq_auth = None\<rparr>"
  have m: "map_of (operationMap sample_server) ''getWidget'' = Some ?op" by code_simp
  have e: "endsWith ''/widgets/{id}/'' ''/''" by code_simp
  have ev: "new_events sample_server
         (snd (call_tool sample_upstream ''getWidget'' (Some [(''id'', JStr ''abc 123'')]) sample_server))
       = [VendorTokenFetch ''ATVPDKIKX0DER'', AuthExchange None, ApiRequest ?rq]"
    by code_simp
  have "endsWith (rq_url ?rq) ''/''"
    using trailing_slash_kept[OF refl disjI1[OF e] m, of "Some [(''id'', JStr ''abc 123'')]" sample_upstream] ev
    by simp
  then show ?thesis using m e ev by simp
qed

end
